theory Spec2Isabelle
  imports Main "HOL-Library.Char_ord" "HOL-Library.List_Lexorder" "HOL-Library.Sublist"
begin

section \<open>Text and the regular expressions of the source\<close>

text \<open>
  A Python \<^verbatim>\<open>str\<close> is modelled by a \<^typ>\<open>string\<close> whose characters are the code
  points 0 to 255.  On these code points the classes \<^verbatim>\<open>\s\<close> and \<^verbatim>\<open>\w\<close> of the
  \<^verbatim>\<open>re\<close> module and the case folding of \<^verbatim>\<open>re.IGNORECASE\<close> are the ones below:
  no character from 128 to 255 folds to an ASCII letter.
\<close>

definition newline :: char where
  "newline = CHR 0x0A"

definition is_space :: "char \<Rightarrow> bool" where
  "is_space c = (let n = (of_char c :: nat)
                 in (9 \<le> n \<and> n \<le> 13) \<or> (28 \<le> n \<and> n \<le> 32) \<or> n = 133 \<or> n = 160)"

definition is_word :: "char \<Rightarrow> bool" where
  "is_word c = (let n = (of_char c :: nat)
                in (48 \<le> n \<and> n \<le> 57) \<or> (65 \<le> n \<and> n \<le> 90) \<or> n = 95
                   \<or> (97 \<le> n \<and> n \<le> 122)
                   \<or> n = 170 \<or> n = 178 \<or> n = 179 \<or> n = 181 \<or> n = 185 \<or> n = 186
                   \<or> (188 \<le> n \<and> n \<le> 190) \<or> (192 \<le> n \<and> n \<le> 214)
                   \<or> (216 \<le> n \<and> n \<le> 246) \<or> 248 \<le> n)"

definition ascii_lower :: "char \<Rightarrow> char" where
  "ascii_lower c = (let n = (of_char c :: nat)
                    in if 65 \<le> n \<and> n \<le> 90 then char_of (n + 32) else c)"

text \<open>A literal of letters matched at the head of the text under
  \<^verbatim>\<open>re.IGNORECASE\<close>.\<close>

fun ci_prefix :: "string \<Rightarrow> string \<Rightarrow> bool" where
  "ci_prefix [] s = True"
| "ci_prefix (p # ps) [] = False"
| "ci_prefix (p # ps) (c # cs) = (ascii_lower c = ascii_lower p \<and> ci_prefix ps cs)"

text \<open>\<^verbatim>\<open>\b\<close>: the character before the position and the character after it differ in
  being word characters; the ends of the text count as non-word.\<close>

definition boundary :: "bool \<Rightarrow> string \<Rightarrow> bool" where
  "boundary prev_word s = (prev_word \<noteq> (s \<noteq> [] \<and> is_word (hd s)))"

text \<open>\<^verbatim>\<open>re.search\<close>: the pattern is tried at every position, left to right.  The first
  argument matches the pattern at one position, given whether the previous character
  is a word character.\<close>

fun re_search :: "(bool \<Rightarrow> string \<Rightarrow> bool) \<Rightarrow> bool \<Rightarrow> string \<Rightarrow> bool" where
  "re_search m prev_word [] = m prev_word []"
| "re_search m prev_word (c # cs) = (m prev_word (c # cs) \<or> re_search m (is_word c) cs)"

text \<open>\<^verbatim>\<open>\bkw\b\<close> for a keyword of letters.\<close>

definition keyword_at :: "string \<Rightarrow> bool \<Rightarrow> string \<Rightarrow> bool" where
  "keyword_at kw prev_word s =
     (boundary prev_word s \<and> ci_prefix kw s \<and> boundary True (drop (length kw) s))"

text \<open>\<^verbatim>\<open>^\s*kw\b\<close>, without \<^verbatim>\<open>re.MULTILINE\<close>.\<close>

definition starts_with_keyword :: "string \<Rightarrow> string \<Rightarrow> bool" where
  "starts_with_keyword kw s =
     (let r = dropWhile is_space s
      in ci_prefix kw r \<and> boundary True (drop (length kw) r))"

text \<open>\<^verbatim>\<open>\bdrop\s+database\b\<close>\<close>

definition drop_database_at :: "bool \<Rightarrow> string \<Rightarrow> bool" where
  "drop_database_at prev_word s =
     (boundary prev_word s \<and> ci_prefix ''drop'' s \<and>
      (let r = drop 4 s; r' = dropWhile is_space r
       in r \<noteq> [] \<and> is_space (hd r) \<and> ci_prefix ''database'' r'
          \<and> boundary True (drop 8 r')))"

text \<open>\<^verbatim>\<open>;.*?(?:select|insert|update|delete|drop|alter|truncate)\<close>: the dot does not
  match a newline, so the keyword lies on the line of the semicolon.\<close>

definition statement_keywords :: "string list" where
  "statement_keywords =
     [''select'', ''insert'', ''update'', ''delete'', ''drop'', ''alter'', ''truncate'']"

fun keyword_on_line :: "string \<Rightarrow> bool" where
  "keyword_on_line [] = False"
| "keyword_on_line (c # cs) =
     (list_ex (\<lambda>kw. ci_prefix kw (c # cs)) statement_keywords
      \<or> (c \<noteq> newline \<and> keyword_on_line cs))"

definition second_statement_at :: "bool \<Rightarrow> string \<Rightarrow> bool" where
  "second_statement_at prev_word s =
     (case s of [] \<Rightarrow> False | c # cs \<Rightarrow> c = CHR '';'' \<and> keyword_on_line cs)"

text \<open>\<^verbatim>\<open>re.sub(r"--.*?$", "", query, flags=re.MULTILINE)\<close>: from two dashes to the end
  of the line; the newline stays.  The flag says whether the scan is inside a comment.\<close>

fun strip_line :: "bool \<Rightarrow> string \<Rightarrow> string" where
  "strip_line in_comment [] = []"
| "strip_line in_comment (c # cs) =
     (if in_comment
      then (if c = newline then c # strip_line False cs else strip_line True cs)
      else if c = CHR ''-'' \<and> cs \<noteq> [] \<and> hd cs = CHR ''-'' then strip_line True cs
      else c # strip_line False cs)"

definition strip_line_comments :: "string \<Rightarrow> string" where
  "strip_line_comments q = strip_line False q"

text \<open>\<^verbatim>\<open>re.sub(r"/\*.*?\*/", "", query_clean, flags=re.DOTALL)\<close>: from an opening
  \<^verbatim>\<open>/*\<close> to the first \<^verbatim>\<open>*/\<close> after it; an opening with no closing stays.\<close>

fun after_close :: "string \<Rightarrow> string option" where
  "after_close [] = None"
| "after_close (c # cs) =
     (if c = CHR ''*'' \<and> cs \<noteq> [] \<and> hd cs = CHR ''/'' then Some (tl cs) else after_close cs)"

lemma after_close_length: "after_close s = Some r \<Longrightarrow> length r < length s"
  by (induction s) (auto split: if_splits)

function strip_block_comments :: "string \<Rightarrow> string" where
  "strip_block_comments [] = []"
| "strip_block_comments (c # cs) =
     (if c = CHR ''/'' \<and> cs \<noteq> [] \<and> hd cs = CHR ''*''
      then (case after_close (tl cs) of
              Some r \<Rightarrow> strip_block_comments r
            | None \<Rightarrow> c # strip_block_comments cs)
      else c # strip_block_comments cs)"
  by pat_completeness auto
termination
proof (relation "measure length")
  show "wf (measure length)" by simp
next
  fix c :: char and cs r :: string
  assume "c = CHR ''/'' \<and> cs \<noteq> [] \<and> hd cs = CHR ''*''" and "after_close (tl cs) = Some r"
  then have "length r < length (tl cs)"
    by (intro after_close_length) simp
  then show "(r, c # cs) \<in> measure length" by simp
qed auto

definition strip_comments :: "string \<Rightarrow> string" where
  "strip_comments q = strip_block_comments (strip_line_comments q)"

text \<open>\<^verbatim>\<open>query.rstrip(';')\<close> and \<^verbatim>\<open>s.strip()\<close>\<close>

definition rstrip_semicolons :: "string \<Rightarrow> string" where
  "rstrip_semicolons s = rev (dropWhile (\<lambda>c. c = CHR '';'') (rev s))"

definition py_strip :: "string \<Rightarrow> string" where
  "py_strip s = rev (dropWhile is_space (rev (dropWhile is_space s)))"

text \<open>\<^verbatim>\<open>str(limit)\<close> for a Python \<^verbatim>\<open>int\<close>\<close>

function decimal :: "nat \<Rightarrow> string" where
  "decimal n = (if n < 10 then [char_of (48 + n)]
                else decimal (n div 10) @ [char_of (48 + n mod 10)])"
  by pat_completeness auto
termination
  by (relation "measure id") auto

definition str_int :: "int \<Rightarrow> string" where
  "str_int i = (if i < 0 then CHR ''-'' # decimal (nat (- i)) else decimal (nat i))"

section \<open>Security validator (core/security.py)\<close>

text \<open>\<^verbatim>\<open>DANGEROUS_PATTERNS\<close>: each pattern, as a search over the text, with its
  message.\<close>

definition DANGEROUS_PATTERNS :: "((string \<Rightarrow> bool) \<times> string) list" where
  "DANGEROUS_PATTERNS =
     [(re_search drop_database_at False, ''DROP DATABASE is not allowed''),
      (re_search (keyword_at ''truncate'') False, ''TRUNCATE is not allowed''),
      (re_search second_statement_at False, ''Multiple statements not allowed'')]"

fun first_dangerous :: "((string \<Rightarrow> bool) \<times> string) list \<Rightarrow> string \<Rightarrow> string option" where
  "first_dangerous [] query_clean = None"
| "first_dangerous ((pattern, message) # ps) query_clean =
     (if pattern query_clean then Some message else first_dangerous ps query_clean)"

definition validate_query :: "string \<Rightarrow> bool \<times> string option" where
  "validate_query query =
     (case first_dangerous DANGEROUS_PATTERNS (strip_comments query) of
        Some message \<Rightarrow> (False, Some message)
      | None \<Rightarrow> (True, None))"

definition require_where_for_delete :: "string \<Rightarrow> bool \<times> string option" where
  "require_where_for_delete query =
     (let query_clean = strip_comments query
      in if starts_with_keyword ''delete'' query_clean
            \<and> \<not> re_search (keyword_at ''where'') False query_clean
         then (False, Some ''DELETE statements must include a WHERE clause'')
         else (True, None))"

text \<open>\<^verbatim>\<open>\b(union|intersect|except)\b\<close>\<close>

definition compound_at :: "bool \<Rightarrow> string \<Rightarrow> bool" where
  "compound_at prev_word s =
     (keyword_at ''union'' prev_word s \<or> keyword_at ''intersect'' prev_word s
      \<or> keyword_at ''except'' prev_word s)"

definition inject_limit_to_select :: "string \<Rightarrow> int \<Rightarrow> string" where
  "inject_limit_to_select query limit =
     (let query_clean = strip_comments query
      in if starts_with_keyword ''select'' query_clean
         then if \<not> re_search (keyword_at ''limit'') False query_clean
              then if re_search compound_at False query_clean
                   then ''('' @ query @ '') LIMIT '' @ str_int limit
                   else rstrip_semicolons query @ '' LIMIT '' @ str_int limit
              else query
         else query)"

text \<open>\<^verbatim>\<open>QUERY_PATTERNS\<close>, in the order of the dict.\<close>

definition QUERY_PATTERNS :: "(string \<times> string) list" where
  "QUERY_PATTERNS =
     [(''SELECT'', ''select''), (''INSERT'', ''insert''), (''UPDATE'', ''update''),
      (''DELETE'', ''delete''), (''ALTER'', ''alter'')]"

fun first_query_type :: "(string \<times> string) list \<Rightarrow> string \<Rightarrow> string option" where
  "first_query_type [] query_clean = None"
| "first_query_type ((query_type, kw) # ps) query_clean =
     (if starts_with_keyword kw query_clean then Some query_type
      else first_query_type ps query_clean)"

definition get_query_type :: "string \<Rightarrow> string option" where
  "get_query_type query = first_query_type QUERY_PATTERNS (strip_comments query)"

section \<open>Query validator (db/query\_validator.py)\<close>

text \<open>The result is the tuple \<^verbatim>\<open>(is_valid, error_message, query_type)\<close>.  For a SELECT
  the source rebinds its local \<^verbatim>\<open>query\<close> to the text with the limit injected; the
  tuple it returns does not hold that text.\<close>

definition validate_generated_query :: "string \<Rightarrow> bool \<times> string option \<times> string option" where
  "validate_generated_query query =
     (case validate_query query of
        (False, error) \<Rightarrow> (False, error, None)
      | (True, _) \<Rightarrow>
          (case require_where_for_delete query of
             (False, error) \<Rightarrow> (False, error, None)
           | (True, _) \<Rightarrow>
               (case get_query_type query of
                  None \<Rightarrow> (False, Some ''Could not determine query type'', None)
                | Some query_type \<Rightarrow> (True, None, Some query_type))))"

definition validate_preview_query :: "string \<Rightarrow> bool \<times> string option" where
  "validate_preview_query query =
     (case validate_query query of
        (False, error) \<Rightarrow> (False, error)
      | (True, _) \<Rightarrow> (True, None))"

section \<open>Preview rewriting (db/transaction\_manager.py)\<close>

text \<open>\<^verbatim>\<open>(?:;)?$\<close> at the end of the UPDATE pattern: an optional semicolon, then the end
  of the text or the newline that ends it.\<close>

definition end_ok :: "string \<Rightarrow> bool" where
  "end_ok r = (r = [] \<or> r = [newline] \<or> r = '';'' \<or> r = [CHR '';'', newline])"

text \<open>\<^verbatim>\<open>(.+?)(?:;)?$\<close> under \<^verbatim>\<open>re.DOTALL\<close>: the shortest non-empty group after which
  the text ends.\<close>

fun lazy_group :: "string \<Rightarrow> string option" where
  "lazy_group [] = None"
| "lazy_group (c # cs) =
     (if end_ok cs then Some [c] else map_option ((#) c) (lazy_group cs))"

text \<open>\<^verbatim>\<open>\s+(.+?)(?:;)?$\<close>, tried right after a WHERE: the greedy whitespace gives one
  character back when nothing else is left for the group.\<close>

definition where_tail :: "string \<Rightarrow> string option" where
  "where_tail t =
     (let ws = takeWhile is_space t; r = dropWhile is_space t
      in if ws = [] then None
         else if r \<noteq> [] then lazy_group r
         else if 2 \<le> length ws then Some [last ws]
         else None)"

text \<open>\<^verbatim>\<open>.*?WHERE\s+(.+?)(?:;)?$\<close>: the first WHERE after which the tail matches.\<close>

fun find_where :: "string \<Rightarrow> string option" where
  "find_where [] = None"
| "find_where (c # cs) =
     (case (if ci_prefix ''where'' (c # cs) then where_tail (drop 5 (c # cs)) else None) of
        Some g \<Rightarrow> Some g
      | None \<Rightarrow> find_where cs)"

text \<open>\<^verbatim>\<open>([^\s]+)\<close> is greedy: the longest group first, then shorter ones.\<close>

fun try_table :: "string \<Rightarrow> nat \<Rightarrow> (string \<times> string) option" where
  "try_table r 0 = None"
| "try_table r (Suc n) =
     (case find_where (drop (Suc n) r) of
        Some g \<Rightarrow> Some (take (Suc n) r, g)
      | None \<Rightarrow> try_table r n)"

text \<open>\<^verbatim>\<open>re.match(r"UPDATE\s+([^\s]+).*?WHERE\s+(.+?)(?:;)?$", query,
  re.IGNORECASE | re.DOTALL)\<close>: the two groups of the match, if any.\<close>

definition match_update :: "string \<Rightarrow> (string \<times> string) option" where
  "match_update query =
     (if ci_prefix ''update'' query
      then (let r = drop 6 query; r' = dropWhile is_space r
            in if r \<noteq> [] \<and> is_space (hd r)
               then try_table r' (length (takeWhile (\<lambda>c. \<not> is_space c) r'))
               else None)
      else None)"

text \<open>\<^verbatim>\<open>re.sub(r"^UPDATE\b", "SELECT *", query, flags=re.IGNORECASE)\<close>\<close>

definition sub_update :: "string \<Rightarrow> string" where
  "sub_update query =
     (if ci_prefix ''update'' query \<and> boundary True (drop 6 query)
      then ''SELECT *'' @ drop 6 query else query)"

text \<open>\<^verbatim>\<open>.*?\s+WHERE\<close> under \<^verbatim>\<open>re.DOTALL\<close>: the text after the first WHERE that
  follows whitespace.\<close>

fun space_where :: "string \<Rightarrow> string option" where
  "space_where [] = None"
| "space_where (c # cs) =
     (if is_space c \<and> ci_prefix ''where'' (dropWhile is_space cs)
      then Some (drop 5 (dropWhile is_space cs))
      else space_where cs)"

text \<open>\<^verbatim>\<open>SET\s+.*?\s+WHERE\<close> at one position: the text after the match.  The first
  whitespace run is greedy and gives one character back only when the WHERE follows
  it directly.\<close>

definition set_where_at :: "string \<Rightarrow> string option" where
  "set_where_at s =
     (if ci_prefix ''set'' s
      then (let r = drop 3 s; ws = takeWhile is_space r; rest = dropWhile is_space r
            in if ws = [] then None
               else (case space_where rest of
                       Some e \<Rightarrow> Some e
                     | None \<Rightarrow> if 2 \<le> length ws \<and> ci_prefix ''where'' rest
                               then Some (drop 5 rest) else None))
      else None)"

lemma space_where_length: "space_where s = Some e \<Longrightarrow> length e < length s"
proof (induction s)
  case Nil
  then show ?case by simp
next
  case (Cons c cs)
  have "length (dropWhile is_space cs) \<le> length cs"
    by (rule length_dropWhile_le)
  with Cons show ?case
    by (auto split: if_splits)
qed

lemma set_where_at_length:
  assumes "set_where_at s = Some e"
  shows "length e < length s"
proof -
  let ?r = "drop 3 s"
  have le: "length (dropWhile is_space ?r) \<le> length ?r"
    by (rule length_dropWhile_le)
  have pre: "ci_prefix ''set'' s"
    using assms by (auto simp: set_where_at_def split: if_splits)
  then have "s \<noteq> []"
    by (cases s) auto
  then have lt: "length ?r \<le> length s"
    by simp
  from assms pre consider
      (a) "space_where (dropWhile is_space ?r) = Some e"
    | (b) "takeWhile is_space ?r \<noteq> []" "e = drop 5 (dropWhile is_space ?r)"
    by (auto simp: set_where_at_def Let_def split: if_splits option.splits)
  then show ?thesis
  proof cases
    case a
    then have "length e < length (dropWhile is_space ?r)"
      by (rule space_where_length)
    with le lt show ?thesis by simp
  next
    case b
    from b(1) have "?r \<noteq> []" by auto
    then have "length s > 0" by auto
    have "length (takeWhile is_space ?r) + length (dropWhile is_space ?r) = length ?r"
      by (metis length_append takeWhile_dropWhile_id)
    moreover have "0 < length (takeWhile is_space ?r)"
      using b(1) by (cases "takeWhile is_space ?r") simp_all
    ultimately have "length (dropWhile is_space ?r) < length ?r"
      by linarith
    with b(2) lt show ?thesis by simp
  qed
qed

text \<open>\<^verbatim>\<open>re.sub(r"SET\s+.*?\s+WHERE", " WHERE", query_modified,
  flags=re.IGNORECASE | re.DOTALL)\<close>: every match, left to right.\<close>

function sub_set_where :: "string \<Rightarrow> string" where
  "sub_set_where [] = []"
| "sub_set_where (c # cs) =
     (case set_where_at (c # cs) of
        Some e \<Rightarrow> '' WHERE'' @ sub_set_where e
      | None \<Rightarrow> c # sub_set_where cs)"
  by pat_completeness auto
termination
proof (relation "measure length")
  show "wf (measure length)" by simp
next
  fix c :: char and cs e :: string
  assume "set_where_at (c # cs) = Some e"
  then have "length e < length (c # cs)"
    by (rule set_where_at_length)
  then show "(e, c # cs) \<in> measure length" by simp
qed auto

definition convert_update_to_select :: "string \<Rightarrow> string" where
  "convert_update_to_select query =
     (case match_update query of
        Some (table_name, where_clause) \<Rightarrow>
          ''SELECT * FROM '' @ py_strip table_name @ '' WHERE '' @ py_strip where_clause
      | None \<Rightarrow> sub_set_where (sub_update query))"

text \<open>\<^verbatim>\<open>re.sub(r"^DELETE\s+FROM\b", "SELECT * FROM", query, flags=re.IGNORECASE)\<close>\<close>

definition convert_delete_to_select :: "string \<Rightarrow> string" where
  "convert_delete_to_select query =
     (if ci_prefix ''delete'' query
      then (let r = drop 6 query; r' = dropWhile is_space r
            in if r \<noteq> [] \<and> is_space (hd r) \<and> ci_prefix ''from'' r'
                  \<and> boundary True (drop 4 r')
               then ''SELECT * FROM'' @ drop 4 r' else query)
      else query)"

section \<open>The database session\<close>

text \<open>
  The session is the SQLAlchemy \<^verbatim>\<open>AsyncSession\<close> handed in by the caller.  Its
  behaviour is a parameter: each call either returns or raises, and an exception is
  modelled by its message (\<open>Inl\<close>).  The exceptions are instances of
  \<^verbatim>\<open>Exception\<close>, the ones that \<^verbatim>\<open>except Exception\<close> catches.  \<open>'s\<close> is the state of the session and the
  database behind it, \<open>'r\<close> the result object of \<^verbatim>\<open>session.execute\<close>, \<open>'row\<close> a row.
\<close>

record ('s, 'r, 'row) session =
  s_execute :: "string \<Rightarrow> 's \<Rightarrow> (string + 'r) \<times> 's"
  s_fetchall :: "'r \<Rightarrow> 's \<Rightarrow> (string + 'row list) \<times> 's"
  s_rowcount :: "'r \<Rightarrow> string + int"
  s_commit :: "'s \<Rightarrow> (string + unit) \<times> 's"
  s_rollback :: "'s \<Rightarrow> (string + unit) \<times> 's"

text \<open>Every call on the session is recorded, with whether it returned (\<open>True\<close>) or
  raised (\<open>False\<close>).\<close>

datatype event =
    Executed string bool
  | Fetched bool
  | Committed bool
  | RolledBack bool

type_synonym 's conn = "'s \<times> event list"

fun returned :: "string + 'a \<Rightarrow> bool" where
  "returned (Inl e) = False"
| "returned (Inr v) = True"

definition session_execute ::
  "('s, 'r, 'row) session \<Rightarrow> string \<Rightarrow> 's conn \<Rightarrow> (string + 'r) \<times> 's conn" where
  "session_execute db query c =
     (case s_execute db query (fst c) of
        (res, s') \<Rightarrow> (res, (s', snd c @ [Executed query (returned res)])))"

definition result_fetchall ::
  "('s, 'r, 'row) session \<Rightarrow> 'r \<Rightarrow> 's conn \<Rightarrow> (string + 'row list) \<times> 's conn" where
  "result_fetchall db r c =
     (case s_fetchall db r (fst c) of
        (res, s') \<Rightarrow> (res, (s', snd c @ [Fetched (returned res)])))"

definition session_commit ::
  "('s, 'r, 'row) session \<Rightarrow> 's conn \<Rightarrow> (string + unit) \<times> 's conn" where
  "session_commit db c =
     (case s_commit db (fst c) of
        (res, s') \<Rightarrow> (res, (s', snd c @ [Committed (returned res)])))"

definition session_rollback ::
  "('s, 'r, 'row) session \<Rightarrow> 's conn \<Rightarrow> (string + unit) \<times> 's conn" where
  "session_rollback db c =
     (case s_rollback db (fst c) of
        (res, s') \<Rightarrow> (res, (s', snd c @ [RolledBack (returned res)])))"

section \<open>Transaction manager (db/transaction\_manager.py)\<close>

text \<open>The second component of the result tuple: the rows, the affected-row count,
  or \<^verbatim>\<open>None\<close>.\<close>

datatype 'row payload = Rows "'row list" | Affected int | NoPayload

type_synonym 'row tx_result = "bool \<times> 'row payload \<times> string option"

text \<open>The outer \<^verbatim>\<open>except Exception as e\<close>: roll back and return the failure.  An
  exception of the rollback itself leaves the function (\<open>Inl\<close>).\<close>

definition rollback_handler ::
  "('s, 'r, 'row) session \<Rightarrow> string \<Rightarrow> 's conn \<Rightarrow> (string + 'row tx_result) \<times> 's conn" where
  "rollback_handler db error_msg c =
     (case session_rollback db c of
        (Inl e, c') \<Rightarrow> (Inl e, c')
      | (Inr _, c') \<Rightarrow> (Inr (False, NoPayload, Some error_msg), c'))"

text \<open>The inner \<^verbatim>\<open>except Exception\<close>: it is entered by any exception of the inner
  \<^verbatim>\<open>try\<close>, that of \<^verbatim>\<open>fetchall\<close> and that of the first \<^verbatim>\<open>commit\<close> alike.\<close>

definition write_branch ::
  "('s, 'r, 'row) session \<Rightarrow> 'r \<Rightarrow> 's conn \<Rightarrow> (string + 'row tx_result) \<times> 's conn" where
  "write_branch db r c =
     (case s_rowcount db r of
        Inl e \<Rightarrow> rollback_handler db e c
      | Inr rows_affected \<Rightarrow>
          (case session_commit db c of
             (Inl e, c') \<Rightarrow> rollback_handler db e c'
           | (Inr _, c') \<Rightarrow> (Inr (True, Affected rows_affected, None), c')))"

definition execute_with_transaction ::
  "('s, 'r, 'row) session \<Rightarrow> string \<Rightarrow> 's conn \<Rightarrow> (string + 'row tx_result) \<times> 's conn" where
  "execute_with_transaction db query c =
     (case session_execute db query c of
        (Inl e, c1) \<Rightarrow> rollback_handler db e c1
      | (Inr r, c1) \<Rightarrow>
          (case result_fetchall db r c1 of
             (Inl _, c2) \<Rightarrow> write_branch db r c2
           | (Inr rows, c2) \<Rightarrow>
               (case session_commit db c2 of
                  (Inl _, c3) \<Rightarrow> write_branch db r c3
                | (Inr _, c3) \<Rightarrow> (Inr (True, Rows rows, None), c3))))"

definition execute_read_only ::
  "('s, 'r, 'row) session \<Rightarrow> string \<Rightarrow> 's conn \<Rightarrow> 'row tx_result \<times> 's conn" where
  "execute_read_only db query c =
     (case session_execute db query c of
        (Inl e, c1) \<Rightarrow> ((False, NoPayload, Some e), c1)
      | (Inr r, c1) \<Rightarrow>
          (case result_fetchall db r c1 of
             (Inl e, c2) \<Rightarrow> ((False, NoPayload, Some e), c2)
           | (Inr rows, c2) \<Rightarrow> ((True, Rows rows, None), c2)))"

definition execute_preview_query ::
  "('s, 'r, 'row) session \<Rightarrow> string \<Rightarrow> 's conn \<Rightarrow> (bool \<times> nat \<times> string option) \<times> 's conn" where
  "execute_preview_query db query c =
     (case session_execute db query c of
        (Inl e, c1) \<Rightarrow> ((False, 0, Some e), c1)
      | (Inr r, c1) \<Rightarrow>
          (case result_fetchall db r c1 of
             (Inl e, c2) \<Rightarrow> ((False, 0, Some e), c2)
           | (Inr rows, c2) \<Rightarrow> ((True, length rows, None), c2)))"

section \<open>Query executor (db/query\_executor.py)\<close>

text \<open>The result dicts, as association lists in the order the source writes the
  keys.  A row converted by \<^verbatim>\<open>dict(row._mapping)\<close> stays a value of \<open>'row\<close>.\<close>

datatype 'row pyval = PNone | PBool bool | PInt int | PStr string | PRows "'row list"

type_synonym 'row pydict = "(string \<times> 'row pyval) list"

definition execute_query ::
  "('s, 'r, 'row) session \<Rightarrow> string \<Rightarrow> 's conn \<Rightarrow> (string + 'row pydict) \<times> 's conn" where
  "execute_query db query c =
     (case validate_generated_query query of
        (False, error, _) \<Rightarrow>
          (Inr [(''success'', PBool False),
                (''error'', case error of None \<Rightarrow> PNone | Some m \<Rightarrow> PStr m),
                (''query_type'', PNone), (''affected_rows'', PInt 0), (''data'', PNone)], c)
      | (True, _, query_type) \<Rightarrow>
          (let qt = (case query_type of None \<Rightarrow> PNone | Some t \<Rightarrow> PStr t)
           in if query_type = Some ''SELECT''
              then (case execute_read_only db query c of
                      ((True, Rows rows, _), c') \<Rightarrow>
                        (Inr [(''success'', PBool True), (''query_type'', qt),
                              (''data'', PRows rows),
                              (''rows_returned'', PInt (int (length rows))),
                              (''error'', PNone)], c')
                    | ((_, _, error), c') \<Rightarrow>
                        (Inr [(''success'', PBool False), (''query_type'', qt),
                              (''error'', case error of None \<Rightarrow> PNone | Some m \<Rightarrow> PStr m),
                              (''data'', PNone), (''rows_returned'', PInt 0)], c'))
              else (case execute_with_transaction db query c of
                      (Inl e, c') \<Rightarrow> (Inl e, c')
                    | (Inr (True, rows_affected, _), c') \<Rightarrow>
                        (Inr [(''success'', PBool True), (''query_type'', qt),
                              (''affected_rows'',
                                 PInt (case rows_affected of Affected n \<Rightarrow> n | _ \<Rightarrow> 0)),
                              (''error'', PNone)], c')
                    | (Inr (False, _, error), c') \<Rightarrow>
                        (Inr [(''success'', PBool False), (''query_type'', qt),
                              (''error'', case error of None \<Rightarrow> PNone | Some m \<Rightarrow> PStr m),
                              (''affected_rows'', PInt 0)], c'))))"

definition preview_failure :: "string option \<Rightarrow> string option \<Rightarrow> 'row pydict" where
  "preview_failure query_type error =
     [(''success'', PBool False),
      (''query_type'', case query_type of None \<Rightarrow> PNone | Some t \<Rightarrow> PStr t),
      (''error'', case error of None \<Rightarrow> PNone | Some m \<Rightarrow> PStr m),
      (''preview_rows'', PRows []), (''affected_rows'', PInt 0)]"

definition preview_query ::
  "('s, 'r, 'row) session \<Rightarrow> string \<Rightarrow> 's conn \<Rightarrow> 'row pydict \<times> 's conn" where
  "preview_query db query c =
     (case validate_preview_query query of
        (False, error) \<Rightarrow>
          ([(''success'', PBool False),
            (''error'', case error of None \<Rightarrow> PNone | Some m \<Rightarrow> PStr m),
            (''preview_rows'', PRows []), (''affected_rows'', PInt 0)], c)
      | (True, _) \<Rightarrow>
          (let query_type = snd (snd (validate_generated_query query));
               preview =
                 (if query_type = Some ''UPDATE'' then convert_update_to_select query
                  else if query_type = Some ''DELETE'' then convert_delete_to_select query
                  else query)
           in case execute_preview_query db preview c of
                ((False, _, error), c1) \<Rightarrow> (preview_failure query_type error, c1)
              | ((True, affected_rows, _), c1) \<Rightarrow>
                  (case session_execute db preview c1 of
                     (Inl e, c2) \<Rightarrow> (preview_failure query_type (Some e), c2)
                   | (Inr r, c2) \<Rightarrow>
                       (case result_fetchall db r c2 of
                          (Inl e, c3) \<Rightarrow> (preview_failure query_type (Some e), c3)
                        | (Inr rows, c3) \<Rightarrow>
                            ([(''success'', PBool True),
                              (''query_type'',
                                 case query_type of None \<Rightarrow> PNone | Some t \<Rightarrow> PStr t),
                              (''preview_rows'', PRows (take 100 rows)),
                              (''affected_rows'', PInt (int affected_rows)),
                              (''error'', PNone)], c3)))))"

section \<open>Preview service (services/preview\_service.py)\<close>

text \<open>\<^verbatim>\<open>LIMIT\b\<close>, searched without a boundary before the keyword.\<close>

definition limit_at :: "bool \<Rightarrow> string \<Rightarrow> bool" where
  "limit_at prev_word s = (ci_prefix ''limit'' s \<and> boundary True (drop 5 s))"

text \<open>The text that \<^verbatim>\<open>preview_with_limit\<close> hands to the executor.\<close>

definition limit_preview_text :: "string \<Rightarrow> int \<Rightarrow> string" where
  "limit_preview_text query limit =
     (if \<not> re_search limit_at False query
      then if re_search compound_at False query
           then ''('' @ query @ '') LIMIT '' @ str_int limit
           else rstrip_semicolons query @ '' LIMIT '' @ str_int limit
      else query)"

text \<open>No call inside the \<^verbatim>\<open>try\<close> of \<^verbatim>\<open>preview_with_limit\<close> raises in this model, so
  its \<^verbatim>\<open>except\<close> branch has no counterpart.\<close>

definition preview_with_limit ::
  "('s, 'r, 'row) session \<Rightarrow> string \<Rightarrow> int \<Rightarrow> 's conn \<Rightarrow> 'row pydict \<times> 's conn" where
  "preview_with_limit db query limit c = preview_query db (limit_preview_text query limit) c"

section \<open>Diff service (services/diff\_service.py)\<close>

text \<open>
  A row is a Python \<^verbatim>\<open>Dict[str, Any]\<close>.  It is modelled by the list of its items
  (column name, value) in insertion order; the values are kept abstract: they stand
  for hashable Python values, equal in HOL when Python's \<^verbatim>\<open>==\<close> holds.  Column
  names are compared as Python compares \<^verbatim>\<open>str\<close>: lexicographically by code point.
\<close>

type_synonym 'v row = "(string \<times> 'v) list"

text \<open>\<^verbatim>\<open>tuple(sorted(row.items()))\<close>: the keys of a dict are distinct, so sorting
  the (key, value) tuples never compares two values and orders by key.\<close>

definition canonical_row :: "'v row \<Rightarrow> 'v row" where
  "canonical_row row = sort_key fst row"

text \<open>A Python \<^verbatim>\<open>set\<close> is modelled by the duplicate-free list of its elements.
  Python iterates a set in an order that its hashing decides; \<^verbatim>\<open>list(s)\<close> is
  therefore modelled by a parameter \<open>iteration\<close>, which gives the order of iteration
  for the elements of a set and about which only this is known: it yields every
  element once.\<close>

definition row_set :: "'v row list \<Rightarrow> 'v row list" where
  "row_set rows = remdups (map canonical_row rows)"

definition set_minus :: "'a list \<Rightarrow> 'a list \<Rightarrow> 'a list" where
  "set_minus xs ys = filter (\<lambda>x. x \<notin> set ys) xs"

definition set_inter :: "'a list \<Rightarrow> 'a list \<Rightarrow> 'a list" where
  "set_inter xs ys = filter (\<lambda>x. x \<in> set ys) xs"

record 'v row_diff =
  rows_added :: nat
  rows_removed :: nat
  rows_unchanged :: nat
  added_rows :: "'v row list"
  removed_rows :: "'v row list"

definition calculate_row_diff ::
  "('v row list \<Rightarrow> 'v row list) \<Rightarrow> 'v row list \<Rightarrow> 'v row list \<Rightarrow> 'v row_diff" where
  "calculate_row_diff iteration before_rows after_rows =
     (let before_set = row_set before_rows;
          after_set = row_set after_rows;
          added = iteration (set_minus after_set before_set);
          removed = iteration (set_minus before_set after_set)
      in \<lparr> rows_added = length added,
           rows_removed = length removed,
           rows_unchanged = length (set_inter before_set after_set),
           added_rows = take 10 added,
           removed_rows = take 10 removed \<rparr>)"

record 'v column_change =
  before_examples :: "'v list"
  after_examples :: "'v list"
  changed :: bool

text \<open>\<^verbatim>\<open>[row.get(column) for row in rows if column in row]\<close>\<close>

definition column_values :: "string \<Rightarrow> 'v row list \<Rightarrow> 'v list" where
  "column_values column rows = List.map_filter (\<lambda>row. map_of row column) rows"

definition all_columns :: "'v row list \<Rightarrow> string list" where
  "all_columns rows = remdups (concat (map (map fst) rows))"

definition column_step ::
  "'v row list \<Rightarrow> 'v row list \<Rightarrow> (string \<rightharpoonup> 'v column_change) \<Rightarrow> string
     \<Rightarrow> (string \<rightharpoonup> 'v column_change)" where
  "column_step before_rows after_rows changes column =
     (let before_values = column_values column before_rows;
          after_values = column_values column after_rows
      in if before_values \<noteq> after_values
         then changes(column \<mapsto> \<lparr> before_examples = take 5 before_values,
                                   after_examples = take 5 after_values,
                                   changed = True \<rparr>)
         else changes)"

definition compare_column_changes ::
  "'v row list \<Rightarrow> 'v row list \<Rightarrow> (string \<rightharpoonup> 'v column_change)" where
  "compare_column_changes before_rows after_rows =
     (if before_rows = [] \<or> after_rows = [] then Map.empty
      else foldl (column_step before_rows after_rows) Map.empty
             (all_columns (before_rows @ after_rows)))"

section \<open>Observations on a session trace\<close>

text \<open>The commit calls recorded in a trace, whether they returned or raised.\<close>

definition commits :: "event list \<Rightarrow> event list" where
  "commits tr = filter (\<lambda>e. case e of Committed b \<Rightarrow> True | _ \<Rightarrow> False) tr"

text \<open>A session whose first commit raises and whose later commits return; its state
  counts the commit calls.  The statement returns rows.\<close>

definition flaky_commit_session :: "(nat, unit, nat) session" where
  "flaky_commit_session =
     \<lparr> s_execute = (\<lambda>query n. (Inr (), n)),
       s_fetchall = (\<lambda>r n. (Inr [7], n)),
       s_rowcount = (\<lambda>r. Inr 1),
       s_commit = (\<lambda>n. (if n = 0 then Inl ''commit failed'' else Inr (), Suc n)),
       s_rollback = (\<lambda>n. (Inr (), n)) \<rparr>"

section \<open>Vocabulary of the statements\<close>

text \<open>A text that is a keyword up to the case of its letters.\<close>

definition ci_equal :: "string \<Rightarrow> string \<Rightarrow> bool" where
  "ci_equal t kw = (map ascii_lower t = map ascii_lower kw)"


definition limit_token :: "string \<Rightarrow> bool" where
  "limit_token q = re_search (keyword_at ''limit'') False (strip_comments q)"


text \<open>A keyword occurs somewhere in a text, in any letter case.\<close>

fun ci_infix :: "string \<Rightarrow> string \<Rightarrow> bool" where
  "ci_infix kw [] = ci_prefix kw []"
| "ci_infix kw (c # cs) = (ci_prefix kw (c # cs) \<or> ci_infix kw cs)"

text \<open>The calls of a trace that took effect: a commit or a rollback that returned.\<close>

definition effects :: "event list \<Rightarrow> event list" where
  "effects tr = filter (\<lambda>e. e = Committed True \<or> e = RolledBack True) tr"

section \<open>Lemmas on characters, keywords and searching\<close>

subsection \<open>Characters\<close>

lemma space_not_word: "is_space c \<Longrightarrow> \<not> is_word c"
  by (auto simp: is_space_def is_word_def Let_def)

lemma word_lower: "is_word (ascii_lower c) \<Longrightarrow> is_word c"
  by (auto simp: ascii_lower_def is_word_def Let_def split: if_splits)

lemma space_lower: "is_space (ascii_lower c) = is_space c"
  by (auto simp: ascii_lower_def is_space_def Let_def split: if_splits)

lemma lower_letters:
  "map ascii_lower ''drop'' = ''drop''"
  "map ascii_lower ''database'' = ''database''"
  "map ascii_lower ''truncate'' = ''truncate''"
  "map ascii_lower ''where'' = ''where''"
  "map ascii_lower ''update'' = ''update''"
  by code_simp+

lemma letters_word:
  "is_word CHR ''d''" "is_word CHR ''t''" "is_word CHR ''w''" "is_word CHR ''u''"
  by (simp_all add: is_word_def)

lemma letters_not_space:
  "\<not> is_space CHR ''d''" "\<not> is_space CHR ''t''" "\<not> is_space CHR ''w''" "\<not> is_space CHR ''u''"
  by (simp_all add: is_space_def)

subsection \<open>Case variants of a keyword\<close>

lemma ci_prefix_variant: "ci_equal t kw \<Longrightarrow> ci_prefix kw (t @ rest)"
  unfolding ci_equal_def
proof (induction kw arbitrary: t)
  case Nil
  then show ?case by simp
next
  case (Cons k kw)
  then obtain c cs where t: "t = c # cs" by (cases t) auto
  with Cons show ?case by simp
qed

lemma ci_equal_length: "ci_equal t kw \<Longrightarrow> length t = length kw"
  unfolding ci_equal_def by (metis length_map)

lemma ci_equal_hd:
  assumes "ci_equal t kw" and "kw \<noteq> []"
  shows "t \<noteq> [] \<and> ascii_lower (hd t) = ascii_lower (hd kw)"
proof -
  from assms obtain k ks where kw: "kw = k # ks" by (cases kw) auto
  with assms(1) obtain c cs where "t = c # cs" "ascii_lower c = ascii_lower k"
    unfolding ci_equal_def by (cases t) auto
  with kw show ?thesis by simp
qed

lemma ci_prefix_take:
  "ci_prefix kw s \<longleftrightarrow> length kw \<le> length s \<and> ci_equal (take (length kw) s) kw"
  unfolding ci_equal_def
proof (induction kw s rule: ci_prefix.induct)
  case (1 s)
  then show ?case by simp
next
  case (2 p ps)
  then show ?case by simp
next
  case (3 p ps c cs)
  then show ?case by auto
qed

subsection \<open>Searching\<close>

lemma re_search_after:
  "m (if pre = [] then pw else is_word (last pre)) s \<Longrightarrow> re_search m pw (pre @ s)"
proof (induction pre arbitrary: pw)
  case Nil
  then show ?case by (cases s) simp_all
next
  case (Cons c pre)
  have "re_search m (is_word c) (pre @ s)"
    using Cons.prems by (intro Cons.IH) (simp split: if_splits)
  then show ?case by simp
qed

lemma re_search_after_spaces:
  assumes "list_all is_space pre" and "m False s"
  shows "re_search m False (pre @ s)"
proof (rule re_search_after)
  show "m (if pre = [] then False else is_word (last pre)) s"
  proof (cases "pre = []")
    case True
    with assms(2) show ?thesis by simp
  next
    case False
    then have "last pre \<in> set pre" by simp
    with assms(1) have "is_space (last pre)"
      by (simp add: list_all_iff)
    then have "\<not> is_word (last pre)" by (rule space_not_word)
    with False assms(2) show ?thesis by simp
  qed
qed

lemma dropWhile_stop: "s = [] \<or> \<not> P (hd s) \<Longrightarrow> dropWhile P s = s"
  by (cases s) auto

lemma takeWhile_stop: "s = [] \<or> \<not> P (hd s) \<Longrightarrow> takeWhile P s = []"
  by (cases s) auto

lemma dropWhile_spaces_append:
  "list_all P sp \<Longrightarrow> s = [] \<or> \<not> P (hd s) \<Longrightarrow> dropWhile P (sp @ s) = s"
  by (induction sp) (simp_all add: dropWhile_stop)

lemma takeWhile_spaces_append:
  "list_all P sp \<Longrightarrow> s = [] \<or> \<not> P (hd s) \<Longrightarrow> takeWhile P (sp @ s) = sp"
  by (induction sp) (simp_all add: takeWhile_stop)

lemma keyword_on_line_after:
  assumes "newline \<notin> set mid" and "list_ex (\<lambda>kw. ci_prefix kw s) statement_keywords"
  shows "keyword_on_line (mid @ s)"
  using assms(1)
proof (induction mid)
  case Nil
  from assms(2) have "s \<noteq> []"
    by (auto simp: statement_keywords_def)
  then obtain c cs where "s = c # cs" by (cases s) auto
  with assms(2) show ?case by simp
next
  case (Cons c mid)
  then have "c \<noteq> newline" and "keyword_on_line (mid @ s)" by auto
  then show ?case by simp
qed

lemma list_all_hd_last: "list_all P s \<Longrightarrow> s \<noteq> [] \<Longrightarrow> P (hd s) \<and> P (last s)"
  by (simp add: list_all_iff)

section \<open>Properties of the denylist\<close>

lemma second_statement_found:
  assumes "s = pre @ CHR '';'' # mid @ kw' @ post"
      and "newline \<notin> set mid"
      and "kw \<in> set statement_keywords" and "ci_equal kw' kw"
  shows "re_search second_statement_at False s"
proof -
  have "ci_prefix kw (kw' @ post)"
    using assms(4) by (rule ci_prefix_variant)
  with assms(3) have "list_ex (\<lambda>k. ci_prefix k (kw' @ post)) statement_keywords"
    by (auto simp: list_ex_iff)
  with assms(2) have "keyword_on_line (mid @ kw' @ post)"
    by (rule keyword_on_line_after)
  then have "second_statement_at b (CHR '';'' # mid @ kw' @ post)" for b
    by (simp add: second_statement_at_def)
  then have "re_search second_statement_at False (pre @ CHR '';'' # mid @ kw' @ post)"
    by (intro re_search_after)
  with assms(1) show ?thesis by simp
qed

lemma validate_query_message:
  "validate_query q =
     (let s = strip_comments q
      in if re_search drop_database_at False s then (False, Some ''DROP DATABASE is not allowed'')
         else if re_search (keyword_at ''truncate'') False s then (False, Some ''TRUNCATE is not allowed'')
         else if re_search second_statement_at False s then (False, Some ''Multiple statements not allowed'')
         else (True, None))"
  by (simp add: validate_query_def DANGEROUS_PATTERNS_def Let_def)

lemma validate_generated_query_rejected:
  "validate_query q = (False, e) \<Longrightarrow> validate_generated_query q = (False, e, None)"
  by (simp add: validate_generated_query_def)

text \<open>A semicolon followed on the same line by a statement keyword is found by the
  third rule; the message is that of the first rule that matches.\<close>

lemma second_statement_same_line:
  assumes "strip_comments q = pre @ CHR '';'' # mid @ kw' @ post"
      and "newline \<notin> set mid"
      and "kw \<in> set statement_keywords" and "ci_equal kw' kw"
  shows "validate_generated_query q =
           (False,
            Some (if re_search drop_database_at False (strip_comments q)
                  then ''DROP DATABASE is not allowed''
                  else if re_search (keyword_at ''truncate'') False (strip_comments q)
                  then ''TRUNCATE is not allowed''
                  else ''Multiple statements not allowed''),
            None)"
proof -
  have "re_search second_statement_at False (strip_comments q)"
    using assms by (rule second_statement_found)
  then have "validate_query q =
      (False, Some (if re_search drop_database_at False (strip_comments q)
                  then ''DROP DATABASE is not allowed''
                  else if re_search (keyword_at ''truncate'') False (strip_comments q)
                  then ''TRUNCATE is not allowed''
                  else ''Multiple statements not allowed''))"
    by (simp add: validate_query_message Let_def)
  then show ?thesis by (rule validate_generated_query_rejected)
qed

text \<open>
  Claim C6.  A text with a semicolon followed by another statement keyword should be
  rejected as multiple statements.  The dot of the pattern does not cross a newline,
  because the search runs without \<^verbatim>\<open>re.DOTALL\<close>: when the second statement starts on
  the next line the rule does not see it and validation accepts the text as a SELECT.
  With the two statements on one line the same text is rejected.
\<close>

theorem second_statement_next_line:
  "validate_generated_query ''SELECT 1;\<newline>DROP TABLE users'' = (True, None, Some ''SELECT'')
   \<and> validate_generated_query ''SELECT 1; DROP TABLE users''
        = (False, Some ''Multiple statements not allowed'', None)"
  by code_simp

section \<open>Properties of the validation\<close>

lemma starts_with_keyword_exclusive:
  assumes "starts_with_keyword kw1 s" and "kw1 \<noteq> []" and "kw2 \<noteq> []"
      and "ascii_lower (hd kw1) \<noteq> ascii_lower (hd kw2)"
  shows "\<not> starts_with_keyword kw2 s"
proof
  assume "starts_with_keyword kw2 s"
  with assms(1) have p: "ci_prefix kw1 (dropWhile is_space s)" "ci_prefix kw2 (dropWhile is_space s)"
    by (simp_all add: starts_with_keyword_def Let_def)
  from assms(2,3) obtain a as b bs where k: "kw1 = a # as" "kw2 = b # bs"
    by (cases kw1; cases kw2) auto
  with p obtain c cs where "dropWhile is_space s = c # cs"
    by (cases "dropWhile is_space s") auto
  with p k have "ascii_lower c = ascii_lower a" "ascii_lower c = ascii_lower b"
    by simp_all
  with assms(4) k show False by simp
qed

lemma lower_initials:
  "ascii_lower CHR ''s'' = CHR ''s''" "ascii_lower CHR ''i'' = CHR ''i''"
  "ascii_lower CHR ''u'' = CHR ''u''" "ascii_lower CHR ''d'' = CHR ''d''"
  "ascii_lower CHR ''a'' = CHR ''a''"
  by code_simp+

lemma get_query_type_select:
  "get_query_type q = Some ''SELECT'' \<longleftrightarrow> starts_with_keyword ''select'' (strip_comments q)"
  by (simp add: get_query_type_def QUERY_PATTERNS_def)


lemma get_query_type_update:
  "get_query_type q = Some ''UPDATE'' \<longleftrightarrow> starts_with_keyword ''update'' (strip_comments q)"
proof
  assume "get_query_type q = Some ''UPDATE''"
  then show "starts_with_keyword ''update'' (strip_comments q)"
    by (simp add: get_query_type_def QUERY_PATTERNS_def split: if_splits)
next
  assume d: "starts_with_keyword ''update'' (strip_comments q)"
  have "\<not> starts_with_keyword ''select'' (strip_comments q)"
    using d by (rule starts_with_keyword_exclusive) (simp_all add: lower_initials)
  moreover have "\<not> starts_with_keyword ''insert'' (strip_comments q)"
    using d by (rule starts_with_keyword_exclusive) (simp_all add: lower_initials)
  ultimately show "get_query_type q = Some ''UPDATE''"
    using d by (simp add: get_query_type_def QUERY_PATTERNS_def)
qed

lemma validate_query_shape:
  "validate_query q = (True, None) \<or> (\<exists>m. validate_query q = (False, Some m))"
  by (cases "first_dangerous DANGEROUS_PATTERNS (strip_comments q)")
     (simp_all add: validate_query_def)





lemma str_int_100: "str_int 100 = ''100''"
  by code_simp

lemma select_passes_where_check:
  assumes "get_query_type q = Some ''SELECT''"
  shows "require_where_for_delete q = (True, None)"
proof -
  from assms have "starts_with_keyword ''select'' (strip_comments q)"
    by (simp add: get_query_type_select)
  then have "\<not> starts_with_keyword ''delete'' (strip_comments q)"
    by (rule starts_with_keyword_exclusive) (simp_all add: lower_initials)
  then show ?thesis
    by (simp add: require_where_for_delete_def Let_def)
qed

text \<open>What the limit injection returns for a text classified SELECT, and when such a
  text is accepted.\<close>

lemma limit_injection_on_select:
  assumes "get_query_type q = Some ''SELECT''"
  shows "(fst (validate_query q) \<longrightarrow>
            validate_generated_query q = (True, None, Some ''SELECT''))
         \<and> (\<not> limit_token q \<longrightarrow>
               inject_limit_to_select q 100 =
                 (if re_search compound_at False (strip_comments q)
                  then ''('' @ q @ '')'' else rstrip_semicolons q) @ '' LIMIT 100'')
         \<and> (limit_token q \<longrightarrow> inject_limit_to_select q 100 = q)"
proof -
  from assms have s: "starts_with_keyword ''select'' (strip_comments q)"
    by (simp add: get_query_type_select)
  have w: "require_where_for_delete q = (True, None)"
    using assms by (rule select_passes_where_check)
  have "validate_generated_query q = (True, None, Some ''SELECT'')" if "fst (validate_query q)"
  proof -
    from that validate_query_shape [of q] have "validate_query q = (True, None)"
      by auto
    with w assms show ?thesis
      by (simp add: validate_generated_query_def)
  qed
  moreover have "inject_limit_to_select q 100 =
                 (if re_search compound_at False (strip_comments q)
                  then ''('' @ q @ '')'' else rstrip_semicolons q) @ '' LIMIT 100''"
    if "\<not> limit_token q"
    using that s by (simp add: inject_limit_to_select_def limit_token_def Let_def str_int_100)
  moreover have "inject_limit_to_select q 100 = q" if "limit_token q"
    using that s by (simp add: inject_limit_to_select_def limit_token_def Let_def)
  ultimately show ?thesis by blast
qed

text \<open>
  Claim C3.  For a SELECT without LIMIT the accepted outcome should carry the text with
  \<open>LIMIT 100\<close> appended, so that the caller runs the bounded text.  The validator
  computes that text, binds it to its local variable and returns the tuple without
  it; \<open>execute_query\<close> then hands the text it was given, with no limit, to the
  session.
\<close>

theorem select_limit_discarded:
  "inject_limit_to_select ''SELECT * FROM users'' 100 = ''SELECT * FROM users LIMIT 100''
   \<and> validate_generated_query ''SELECT * FROM users'' = (True, None, Some ''SELECT'')
   \<and> snd (snd (execute_query flaky_commit_session ''SELECT * FROM users'' (0, [])))
       = [Executed ''SELECT * FROM users'' True, Fetched True]"
  by code_simp

text \<open>The same for every accepted SELECT: the first call on the session executes the
  text as it was given.\<close>

lemma select_executed_as_given:
  assumes "validate_generated_query q = (True, None, Some ''SELECT'')"
  shows "\<exists>b rest. snd (snd (execute_query db q c)) = snd c @ Executed q b # rest"
proof -
  obtain res s1 where ex: "s_execute db q (fst c) = (res, s1)"
    by (cases "s_execute db q (fst c)")
  show ?thesis
  proof (cases res)
    case (Inl e)
    with assms ex have "snd (snd (execute_query db q c)) = snd c @ [Executed q False]"
      by (simp add: execute_query_def execute_read_only_def session_execute_def)
    then show ?thesis by blast
  next
    case (Inr r)
    obtain fres s2 where fe: "s_fetchall db r s1 = (fres, s2)"
      by (cases "s_fetchall db r s1")
    with assms ex Inr
    have "snd (snd (execute_query db q c))
            = snd c @ [Executed q True, Fetched (returned fres)]"
      by (cases fres)
         (simp_all add: execute_query_def execute_read_only_def session_execute_def
            result_fetchall_def)
    then show ?thesis by blast
  qed
qed

section \<open>Properties of the limit injection\<close>

text \<open>
  Claim C4.  For a compound SELECT the limit injection should strip trailing semicolons
  before it appends the clause, as the branch for a plain SELECT does.  On a UNION
  that ends in a semicolon the parentheses are put around the text as it is, semicolon
  included; \<open>limit_preview_text\<close> shares the behaviour.
\<close>

theorem union_keeps_semicolon:
  "inject_limit_to_select ''SELECT 1 UNION SELECT 2;'' 100 = ''(SELECT 1 UNION SELECT 2;) LIMIT 100''
   \<and> limit_preview_text ''SELECT 1 UNION SELECT 2;'' 10 = ''(SELECT 1 UNION SELECT 2;) LIMIT 10''
   \<and> inject_limit_to_select ''SELECT 1;'' 100 = ''SELECT 1 LIMIT 100''"
  by code_simp

section \<open>Properties of the comment stripping\<close>

lemma strip_line_in_comment:
  "newline \<notin> set c \<Longrightarrow> strip_line True (c @ s) = strip_line True s"
  by (induction c) auto

lemma strip_line_at_line_end:
  "s = [] \<or> hd s = newline \<Longrightarrow> strip_line True s = strip_line False s"
  by (cases s) (auto simp: newline_def)

lemma strip_line_comment_deleted:
  assumes "newline \<notin> set c" and "s = [] \<or> hd s = newline"
  shows "p = [] \<or> last p \<noteq> CHR ''-'' \<Longrightarrow>
           strip_line b (p @ ''--'' @ c @ s) = strip_line b (p @ s)"
proof (induction p arbitrary: b)
  case Nil
  have "strip_line True (CHR ''-'' # c @ s) = strip_line True s"
    using strip_line_in_comment [of "CHR ''-'' # c" s] assms(1) by (simp add: newline_def)
  moreover have "strip_line True (CHR ''-'' # CHR ''-'' # c @ s) = strip_line True s"
    using strip_line_in_comment [of "CHR ''-'' # CHR ''-'' # c" s] assms(1)
    by (simp add: newline_def)
  ultimately show ?case
    using strip_line_at_line_end [OF assms(2)] by (cases b) (simp_all add: newline_def)
next
  case (Cons x p)
  show ?case
  proof (cases "p = []")
    case True
    with Cons.prems have x: "x \<noteq> CHR ''-''" by simp
    have "strip_line bb (''--'' @ c @ s) = strip_line bb s" for bb
      using Cons.IH [of bb] True by simp
    with True x show ?thesis by (simp add: newline_def)
  next
    case False
    with Cons.prems have "p = [] \<or> last p \<noteq> CHR ''-''" by simp
    then have "strip_line bb (p @ ''--'' @ c @ s) = strip_line bb (p @ s)" for bb
      by (rule Cons.IH)
    with False show ?thesis by (simp add: newline_def)
  qed
qed

lemma strip_line_no_dashes: "\<not> sublist ''--'' t \<Longrightarrow> strip_line False t = t"
proof (induction t)
  case Nil
  then show ?case by simp
next
  case (Cons x t)
  then have later: "\<not> sublist ''--'' t" and here: "\<not> prefix ''--'' (x # t)"
    by (simp_all add: sublist_Cons_right)
  from here have "\<not> (x = CHR ''-'' \<and> t \<noteq> [] \<and> hd t = CHR ''-'')"
    by (cases t) auto
  with Cons.IH [OF later] show ?case by auto
qed

lemma strip_line_prefix:
  assumes "\<not> (a \<noteq> [] \<and> b \<noteq> [] \<and> last a = CHR ''-'' \<and> hd b = CHR ''-'')"
  shows "\<not> sublist ''--'' a \<Longrightarrow> strip_line False (a @ b) = a @ strip_line False b"
  using assms
proof (induction a)
  case Nil
  then show ?case by simp
next
  case (Cons x a)
  then have later: "\<not> sublist ''--'' a" and here: "\<not> prefix ''--'' (x # a)"
    by (simp_all add: sublist_Cons_right)
  have first: "\<not> (x = CHR ''-'' \<and> a @ b \<noteq> [] \<and> hd (a @ b) = CHR ''-'')"
  proof (cases "a = []")
    case True
    with Cons.prems(2) show ?thesis by auto
  next
    case False
    with here show ?thesis by (cases a) auto
  qed
  have "\<not> (a \<noteq> [] \<and> b \<noteq> [] \<and> last a = CHR ''-'' \<and> hd b = CHR ''-'')"
    using Cons.prems(2) by auto
  with Cons.IH [OF later] have "strip_line False (a @ b) = a @ strip_line False b"
    by simp
  with first show ?case by auto
qed

lemma strip_line_True_head:
  "strip_line True t = [] \<or> hd (strip_line True t) = newline"
  by (induction t) auto

lemma strip_line_head:
  assumes "strip_line False s \<noteq> []" and "hd (strip_line False s) = CHR ''*''"
  shows "s \<noteq> [] \<and> hd s = CHR ''*''"
proof (cases s)
  case Nil
  with assms show ?thesis by simp
next
  case (Cons x t)
  show ?thesis
  proof (cases "x = CHR ''-'' \<and> t \<noteq> [] \<and> hd t = CHR ''-''")
    case True
    with Cons have "strip_line False s = strip_line True t" by simp
    with assms strip_line_True_head [of t] show ?thesis
      by (auto simp: newline_def)
  next
    case False
    with Cons have "strip_line False s = x # strip_line False t" by auto
    with assms Cons show ?thesis by simp
  qed
qed

lemma after_close_body:
  "\<not> sublist ''*/'' c \<Longrightarrow> after_close (c @ ''*/'' @ s) = Some s"
proof (induction c)
  case Nil
  then show ?case by simp
next
  case (Cons x c)
  then have later: "\<not> sublist ''*/'' c" and here: "\<not> prefix ''*/'' (x # c)"
    by (simp_all add: sublist_Cons_right)
  have "\<not> (x = CHR ''*'' \<and> c @ ''*/'' @ s \<noteq> [] \<and> hd (c @ ''*/'' @ s) = CHR ''/'')"
    using here by (cases c) auto
  with Cons.IH [OF later] show ?case by auto
qed

lemma strip_block_comment: 
  "\<not> sublist ''*/'' c \<Longrightarrow> strip_block_comments (''/*'' @ c @ ''*/'' @ s) = strip_block_comments s"
  using after_close_body [of c s] by simp

lemma strip_block_prefix:
  assumes "\<not> (a \<noteq> [] \<and> b \<noteq> [] \<and> last a = CHR ''/'' \<and> hd b = CHR ''*'')"
  shows "\<not> sublist ''/*'' a \<Longrightarrow> strip_block_comments (a @ b) = a @ strip_block_comments b"
  using assms
proof (induction a)
  case Nil
  then show ?case by simp
next
  case (Cons x a)
  then have later: "\<not> sublist ''/*'' a" and here: "\<not> prefix ''/*'' (x # a)"
    by (simp_all add: sublist_Cons_right)
  have first: "\<not> (x = CHR ''/'' \<and> a @ b \<noteq> [] \<and> hd (a @ b) = CHR ''*'')"
  proof (cases "a = []")
    case True
    with Cons.prems(2) show ?thesis by auto
  next
    case False
    with here show ?thesis by (cases a) auto
  qed
  have "\<not> (a \<noteq> [] \<and> b \<noteq> [] \<and> last a = CHR ''/'' \<and> hd b = CHR ''*'')"
    using Cons.prems(2) by auto
  with Cons.IH [OF later] have "strip_block_comments (a @ b) = a @ strip_block_comments b"
    by simp
  with first show ?case by auto
qed

lemma line_comment_deleted:
  assumes "newline \<notin> set c" and "s = [] \<or> hd s = newline" and "p = [] \<or> last p \<noteq> CHR ''-''"
  shows "strip_comments (p @ ''--'' @ c @ s) = strip_comments (p @ s)"
  using strip_line_comment_deleted [OF assms, of False]
  by (simp add: strip_comments_def strip_line_comments_def)

lemma block_comment_deleted:
  assumes p: "\<not> sublist ''--'' p" "\<not> sublist ''/*'' p"
      and c: "\<not> sublist ''--'' c" "\<not> sublist ''*/'' c"
      and j1: "\<not> (p \<noteq> [] \<and> s \<noteq> [] \<and> last p = CHR ''-'' \<and> hd s = CHR ''-'')"
      and j2: "\<not> (p \<noteq> [] \<and> s \<noteq> [] \<and> last p = CHR ''/'' \<and> hd s = CHR ''*'')"
  shows "strip_comments (p @ ''/*'' @ c @ ''*/'' @ s) = strip_comments (p @ s)"
proof -
  let ?S = "strip_line False s"
  have open_close: "\<not> sublist ''--'' ''/*''" "\<not> sublist ''--'' ''*/''"
    by (simp_all add: sublist_Cons_right)
  have "strip_line False (''*/'' @ s) = ''*/'' @ ?S"
    using open_close(2) by (intro strip_line_prefix) simp_all
  then have "strip_line False (c @ ''*/'' @ s) = c @ ''*/'' @ ?S"
    using strip_line_prefix [of c "''*/'' @ s"] c(1) by simp
  then have "strip_line False (''/*'' @ c @ ''*/'' @ s) = ''/*'' @ c @ ''*/'' @ ?S"
    using strip_line_prefix [of "''/*''" "c @ ''*/'' @ s"] open_close(1) by simp
  then have l1: "strip_line False (p @ ''/*'' @ c @ ''*/'' @ s) = p @ ''/*'' @ c @ ''*/'' @ ?S"
    using strip_line_prefix [of p "''/*'' @ c @ ''*/'' @ s"] p(1) by simp
  have l2: "strip_line False (p @ s) = p @ ?S"
    using j1 p(1) by (rule strip_line_prefix)
  have "strip_block_comments (p @ ''/*'' @ c @ ''*/'' @ ?S)
          = p @ strip_block_comments (''/*'' @ c @ ''*/'' @ ?S)"
    using p(2) by (intro strip_block_prefix) simp_all
  also have "\<dots> = p @ strip_block_comments ?S"
    using strip_block_comment [OF c(2), of ?S] by simp
  finally have b1: "strip_block_comments (p @ ''/*'' @ c @ ''*/'' @ ?S)
                      = p @ strip_block_comments ?S" .
  have "\<not> (p \<noteq> [] \<and> ?S \<noteq> [] \<and> last p = CHR ''/'' \<and> hd ?S = CHR ''*'')"
    using j2 strip_line_head [of s] by blast
  then have b2: "strip_block_comments (p @ ?S) = p @ strip_block_comments ?S"
    using p(2) by (rule strip_block_prefix)
  from l1 l2 b1 b2 show ?thesis
    by (simp add: strip_comments_def strip_line_comments_def)
qed

lemma validation_of_stripped:
  assumes "strip_comments q = strip_comments q'"
  shows "validate_generated_query q = validate_generated_query q'"
proof -
  have 1: "validate_query q = validate_query q'"
    using assms by (simp add: validate_query_def)
  have 2: "require_where_for_delete q = require_where_for_delete q'"
    using assms by (simp add: require_where_for_delete_def)
  have 3: "get_query_type q = get_query_type q'"
    using assms by (simp add: get_query_type_def)
  show ?thesis
    unfolding validate_generated_query_def 1 2 3 by (rule refl)
qed

lemma lower_t: "ascii_lower CHR ''t'' = CHR ''t''"
  by code_simp

lemma keyword_at_variant:
  assumes "ci_equal T kw" and "kw \<noteq> []" and "is_word (ascii_lower (hd kw))"
      and "rest = [] \<or> \<not> is_word (hd rest)"
  shows "keyword_at kw False (T @ rest)"
proof -
  from ci_equal_hd [OF assms(1,2)] assms(3) have T: "T \<noteq> []" "is_word (hd T)"
    by (simp_all add: word_lower)
  moreover have "ci_prefix kw (T @ rest)"
    using assms(1) by (rule ci_prefix_variant)
  moreover have "drop (length kw) (T @ rest) = rest"
    using ci_equal_length [OF assms(1)] by simp
  ultimately show ?thesis
    using assms(4) by (auto simp: keyword_at_def boundary_def)
qed

lemma drop_database_at_variant:
  assumes D: "ci_equal D ''drop''" and sp: "sp \<noteq> []" "list_all is_space sp"
      and B: "ci_equal B ''database''" and rest: "rest = [] \<or> \<not> is_word (hd rest)"
  shows "drop_database_at False (D @ sp @ B @ rest)"
proof -
  from ci_equal_hd [OF D] have Dh: "D \<noteq> []" "is_word (hd D)"
    by (simp_all add: word_lower [of "hd D"] lower_initials letters_word)
  from ci_equal_hd [OF B] have Bh: "B \<noteq> []" "ascii_lower (hd B) = CHR ''d''"
    by (simp_all add: lower_initials)
  have "\<not> is_space (hd B)"
    using space_lower [of "hd B"] Bh(2) by (simp add: letters_not_space)
  with Bh(1) have stop: "B @ rest = [] \<or> \<not> is_space (hd (B @ rest))"
    by simp
  have "boundary False (D @ sp @ B @ rest)"
    using Dh by (simp add: boundary_def)
  moreover have "ci_prefix ''drop'' (D @ sp @ B @ rest)"
    using D by (rule ci_prefix_variant)
  moreover have "drop 4 (D @ sp @ B @ rest) = sp @ B @ rest"
    using ci_equal_length [OF D] by simp
  moreover have "is_space (hd (sp @ B @ rest))"
    using list_all_hd_last [OF sp(2) sp(1)] sp(1) by simp
  moreover have "dropWhile is_space (sp @ B @ rest) = B @ rest"
    using sp(2) stop by (rule dropWhile_spaces_append)
  moreover have "ci_prefix ''database'' (B @ rest)"
    using B by (rule ci_prefix_variant)
  moreover have "drop 8 (B @ rest) = rest"
    using ci_equal_length [OF B] by simp
  moreover have "boundary True rest"
    using rest by (auto simp: boundary_def)
  ultimately show ?thesis
    using sp(1) by (simp add: drop_database_at_def Let_def)
qed

text \<open>
  Claim C7.  Comments should be stripped before any pattern is matched, so that a
  keyword inside a comment has no effect and a keyword outside one is seen.  The two
  passes run one after the other, line comments first, and the first pass does not
  know of block comments: two dashes inside a block comment cut the line there and
  take the closing of the block comment away.  A keyword that stands only inside a
  block comment then causes a rejection, and a block comment that holds two dashes
  hides what follows it on the line: a DROP DATABASE after it is accepted, and a
  TRUNCATE after it passes the denylist.
\<close>

theorem comment_stripping_passes_interfere:
  "strip_comments ''SELECT 1 /* truncate -- */'' = ''SELECT 1 /* truncate ''
   \<and> validate_generated_query ''SELECT 1 /* truncate -- */''
        = (False, Some ''TRUNCATE is not allowed'', None)
   \<and> strip_comments ''SELECT 1 /* -- */; DROP DATABASE x'' = ''SELECT 1 /* ''
   \<and> validate_generated_query ''SELECT 1 /* -- */; DROP DATABASE x''
        = (True, None, Some ''SELECT'')
   \<and> validate_query ''/* -- */ TRUNCATE TABLE users'' = (True, None)"
  by code_simp

section \<open>Properties of the preview rewriting\<close>

lemma lower_where_letters:
  "ascii_lower CHR ''w'' = CHR ''w''" "ascii_lower CHR ''h'' = CHR ''h''"
  "ascii_lower CHR ''e'' = CHR ''e''" "ascii_lower CHR ''r'' = CHR ''r''"
  by code_simp+

lemma ci_prefix_append_long:
  "length kw \<le> length m \<Longrightarrow> ci_prefix kw (m @ x) = ci_prefix kw m"
  by (simp add: ci_prefix_take)

lemma where_not_across:
  assumes "ci_equal W ''where''" and "0 < length m" and "length m < 5"
  shows "\<not> ci_prefix ''where'' (m @ W @ t)"
proof -
  from ci_equal_hd [OF assms(1)] obtain w0 ws where W: "W = w0 # ws"
    and w0: "ascii_lower w0 = CHR ''w''"
    by (cases W) (auto simp: lower_where_letters)
  from assms(2,3) consider "length m = 1" | "length m = 2" | "length m = 3" | "length m = 4"
    by linarith
  then show ?thesis
  proof cases
    case 1
    then obtain a where "m = [a]"
      by (auto simp: length_Suc_conv)
    with W w0 show ?thesis by (simp add: lower_where_letters)
  next
    case 2
    then obtain a b where "m = [a, b]"
      by (auto simp: length_Suc_conv eval_nat_numeral)
    with W w0 show ?thesis by (simp add: lower_where_letters)
  next
    case 3
    then obtain a b c where "m = [a, b, c]"
      by (auto simp: length_Suc_conv eval_nat_numeral)
    with W w0 show ?thesis by (simp add: lower_where_letters)
  next
    case 4
    then obtain a b c d where "m = [a, b, c, d]"
      by (auto simp: length_Suc_conv eval_nat_numeral)
    with W w0 show ?thesis by (simp add: lower_where_letters)
  qed
qed

lemma find_where_step: "\<not> ci_prefix ''where'' (c # s) \<Longrightarrow> find_where (c # s) = find_where s"
  by (simp del: ci_prefix.simps)

lemma find_where_skip:
  assumes "ci_equal W ''where''"
  shows "\<not> ci_infix ''where'' mid \<Longrightarrow> find_where (mid @ W @ t) = find_where (W @ t)"
proof (induction mid)
  case Nil
  then show ?case by simp
next
  case (Cons c mid)
  then have here: "\<not> ci_prefix ''where'' (c # mid)" and later: "\<not> ci_infix ''where'' mid"
    by simp_all
  have "\<not> ci_prefix ''where'' ((c # mid) @ W @ t)"
  proof (cases "5 \<le> length (c # mid)")
    case True
    then have "ci_prefix ''where'' ((c # mid) @ W @ t) = ci_prefix ''where'' (c # mid)"
      by (intro ci_prefix_append_long) simp
    with here show ?thesis by simp
  next
    case False
    then show ?thesis
      by (intro where_not_across [OF assms]) simp_all
  qed
  then have "find_where ((c # mid) @ W @ t) = find_where (mid @ W @ t)"
    using find_where_step [of c "mid @ W @ t"] by simp
  with Cons.IH [OF later] show ?case by simp
qed

lemma end_ok_semicolon: "end_ok (cs @ '';'') \<longleftrightarrow> cs = []"
  by (cases cs rule: rev_cases) (auto simp: end_ok_def newline_def)

lemma lazy_group_semicolon: "cond \<noteq> [] \<Longrightarrow> lazy_group (cond @ '';'') = Some cond"
proof (induction cond)
  case Nil
  then show ?case by simp
next
  case (Cons c cs)
  show ?case
  proof (cases "cs = []")
    case True
    then show ?thesis by (simp add: end_ok_def)
  next
    case False
    with Cons.IH have "lazy_group (cs @ '';'') = Some cs" by simp
    with False show ?thesis by (simp add: end_ok_semicolon)
  qed
qed

lemma end_ok_last: "end_ok cs \<Longrightarrow> cs \<noteq> [] \<Longrightarrow> last cs = newline \<or> last cs = CHR '';''"
  by (auto simp: end_ok_def)

lemma lazy_group_plain:
  "cond \<noteq> [] \<Longrightarrow> last cond \<noteq> newline \<Longrightarrow> last cond \<noteq> CHR '';'' \<Longrightarrow>
     lazy_group cond = Some cond"
proof (induction cond)
  case Nil
  then show ?case by simp
next
  case (Cons c cs)
  show ?case
  proof (cases "cs = []")
    case True
    then show ?thesis by (simp add: end_ok_def)
  next
    case False
    with Cons.prems have l: "last cs \<noteq> newline" "last cs \<noteq> CHR '';''" by simp_all
    with False end_ok_last [of cs] have "\<not> end_ok cs" by blast
    moreover from Cons.IH False l have "lazy_group cs = Some cs" by simp
    ultimately show ?thesis by simp
  qed
qed

lemma newline_space: "is_space newline"
  by (simp add: is_space_def newline_def)

lemma py_strip_id:
  assumes "s \<noteq> []" and "\<not> is_space (hd s)" and "\<not> is_space (last s)"
  shows "py_strip s = s"
proof -
  have "dropWhile is_space s = s"
    using assms(2) by (intro dropWhile_stop) simp
  moreover have "dropWhile is_space (rev s) = rev s"
    using assms(1,3) by (intro dropWhile_stop) (simp add: hd_rev)
  ultimately show ?thesis by (simp add: py_strip_def)
qed

lemma match_update_shape:
  assumes U: "ci_equal U ''update''"
      and ws1: "ws1 \<noteq> []" "list_all is_space ws1"
      and table: "table \<noteq> []" "list_all (\<lambda>c. \<not> is_space c) table"
      and mid: "mid \<noteq> []" "is_space (hd mid)" "\<not> ci_infix ''where'' mid"
      and W: "ci_equal W ''where''"
      and ws2: "ws2 \<noteq> []" "list_all is_space ws2"
      and cond: "cond \<noteq> []" "\<not> is_space (hd cond)" "\<not> is_space (last cond)"
      and semi: "semi = [] \<and> last cond \<noteq> CHR '';'' \<or> semi = '';''"
  shows "match_update (U @ ws1 @ table @ mid @ W @ ws2 @ cond @ semi) = Some (table, cond)"
proof -
  let ?tail = "cond @ semi"
  let ?r' = "table @ mid @ W @ ws2 @ ?tail"
  have lazy: "lazy_group ?tail = Some cond"
  proof (cases "semi = []")
    case True
    from cond(3) newline_space have "last cond \<noteq> newline" by auto
    with True semi cond(1) show ?thesis by (simp add: lazy_group_plain)
  next
    case False
    with semi cond(1) show ?thesis by (simp add: lazy_group_semicolon)
  qed
  have tail_hd: "?tail \<noteq> []" "\<not> is_space (hd ?tail)"
    using cond(1,2) by simp_all
  have "where_tail (ws2 @ ?tail) = Some cond"
  proof -
    have "takeWhile is_space (ws2 @ ?tail) = ws2"
      using ws2(2) tail_hd by (intro takeWhile_spaces_append) simp_all
    moreover have "dropWhile is_space (ws2 @ ?tail) = ?tail"
      using ws2(2) tail_hd by (intro dropWhile_spaces_append) simp_all
    ultimately show ?thesis
      using ws2(1) tail_hd(1) lazy by (simp add: where_tail_def Let_def)
  qed
  moreover have "ci_prefix ''where'' (W @ ws2 @ ?tail)"
    using W by (rule ci_prefix_variant)
  moreover have "length W = 5"
    using ci_equal_length [OF W] by simp
  moreover have "W \<noteq> []"
    using ci_equal_hd [OF W] by simp
  ultimately have "find_where (W @ ws2 @ ?tail) = Some cond"
    by (cases W) simp_all
  then have found: "find_where (mid @ W @ ws2 @ ?tail) = Some cond"
    using find_where_skip [OF W mid(3), of "ws2 @ ?tail"] by simp
  have run: "takeWhile (\<lambda>c. \<not> is_space c) ?r' = table"
    using table(2) mid(1,2) by (intro takeWhile_spaces_append) simp_all
  obtain n where n: "length table = Suc n"
    using table(1) by (cases table) auto
  have "drop (Suc n) ?r' = mid @ W @ ws2 @ ?tail" "take (Suc n) ?r' = table"
    using n by simp_all
  with found have "try_table ?r' (Suc n) = Some (table, cond)"
    by (simp del: append_assoc)
  with n have "try_table ?r' (length table) = Some (table, cond)"
    by simp
  moreover have "dropWhile is_space (ws1 @ ?r') = ?r'"
  proof (rule dropWhile_spaces_append [OF ws1(2)])
    from list_all_hd_last [OF table(2) table(1)] table(1)
    show "?r' = [] \<or> \<not> is_space (hd ?r')" by simp
  qed
  moreover have "ci_prefix ''update'' (U @ ws1 @ ?r')"
    using U by (rule ci_prefix_variant)
  moreover have "length U = 6"
    using ci_equal_length [OF U] by simp
  moreover have "is_space (hd (ws1 @ ?r'))"
    using list_all_hd_last [OF ws1(2) ws1(1)] ws1(1) by simp
  ultimately show ?thesis
    using run ws1(1) by (simp add: match_update_def Let_def)
qed

text \<open>A text of the shape that the pattern of the transformation expects, with the
  keyword UPDATE at its very start.\<close>

lemma update_preview_select:
  assumes "ci_equal U ''update''"
      and "ws1 \<noteq> []" and "list_all is_space ws1"
      and "table \<noteq> []" and "list_all (\<lambda>c. \<not> is_space c) table"
      and "mid \<noteq> []" and "is_space (hd mid)" and "\<not> ci_infix ''where'' mid"
      and "ci_equal W ''where''"
      and "ws2 \<noteq> []" and "list_all is_space ws2"
      and "cond \<noteq> []" and "\<not> is_space (hd cond)" and "\<not> is_space (last cond)"
      and "semi = [] \<and> last cond \<noteq> CHR '';'' \<or> semi = '';''"
  shows "convert_update_to_select (U @ ws1 @ table @ mid @ W @ ws2 @ cond @ semi)
           = ''SELECT * FROM '' @ table @ '' WHERE '' @ cond"
proof -
  have "match_update (U @ ws1 @ table @ mid @ W @ ws2 @ cond @ semi) = Some (table, cond)"
    using assms by (rule match_update_shape)
  moreover have "py_strip table = table"
    using assms(4) list_all_hd_last [OF assms(5) assms(4)] by (intro py_strip_id) simp_all
  moreover have "py_strip cond = cond"
    using assms(12,13,14) by (rule py_strip_id)
  ultimately show ?thesis
    by (simp add: convert_update_to_select_def)
qed

text \<open>
  Claim C8.  An UPDATE statement with a table token and a WHERE clause should be turned
  into the SELECT of the rows it would change.  The classifier takes a text with
  whitespace before the keyword for an UPDATE, but the pattern of the transformation is
  matched at the very start of the text: after one leading space it fails, the
  fallback finds no UPDATE to replace either, and what is handed on is an UPDATE
  without its SET clause.  Without the leading space the same text yields the SELECT.
\<close>

theorem update_preview_leading_space:
  "get_query_type '' UPDATE users SET name='x' WHERE id=1'' = Some ''UPDATE''
   \<and> convert_update_to_select '' UPDATE users SET name='x' WHERE id=1''
       = '' UPDATE users  WHERE id=1''
   \<and> convert_update_to_select ''UPDATE users SET name='x' WHERE id=1''
       = ''SELECT * FROM users WHERE id=1''"
  by code_simp

section \<open>Properties of the transaction manager\<close>

text \<open>
  Claim C1.  On any exception raised during execution or commit the write path should
  roll back and return a failure carrying the message.  Here the statement returns rows
  and the first commit raises: the inner handler takes the exception for the sign of a
  statement without rows and commits again; the second commit returns, so the call
  reports success, the message is lost, and no rollback is issued.
\<close>

theorem commit_exception_swallowed:
  "execute_with_transaction flaky_commit_session ''INSERT INTO t VALUES (7) RETURNING id'' (0, [])
     = (Inr (True, Affected 1, None),
        (2, [Executed ''INSERT INTO t VALUES (7) RETURNING id'' True, Fetched True,
             Committed False, Committed True]))"
  by (simp add: execute_with_transaction_def write_branch_def session_execute_def
        result_fetchall_def session_commit_def flaky_commit_session_def)

subsection \<open>What the write path keeps of the claim\<close>

lemma rollback_handler_trace:
  "\<exists>b. snd (snd (rollback_handler db m c)) = snd c @ [RolledBack b]"
  by (cases "s_rollback db (fst c)"; cases "fst (s_rollback db (fst c))")
     (auto simp: rollback_handler_def session_rollback_def)

lemma write_branch_trace:
  "\<exists>new. snd (snd (write_branch db r c)) = snd c @ new \<and> length (effects new) \<le> 1"
proof (cases "s_rowcount db r")
  case (Inl e)
  with rollback_handler_trace [of db e c] show ?thesis
    by (auto simp: write_branch_def effects_def)
next
  case (Inr n)
  obtain res s' where cm: "s_commit db (fst c) = (res, s')"
    by (cases "s_commit db (fst c)")
  show ?thesis
  proof (cases res)
    case (Inl e)
    from rollback_handler_trace [of db e "(s', snd c @ [Committed False])"]
    obtain b where "snd (snd (rollback_handler db e (s', snd c @ [Committed False])))
                      = snd c @ [Committed False, RolledBack b]"
      by auto
    with Inr cm Inl have "snd (snd (write_branch db r c)) = snd c @ [Committed False, RolledBack b]"
      by (simp add: write_branch_def session_commit_def)
    then show ?thesis
      by (intro exI [of _ "[Committed False, RolledBack b]"]) (simp add: effects_def)
  next
    case (Inr u)
    with \<open>s_rowcount db r = Inr n\<close> cm
    have "snd (snd (write_branch db r c)) = snd c @ [Committed True]"
      by (simp add: write_branch_def session_commit_def)
    then show ?thesis
      by (intro exI [of _ "[Committed True]"]) (simp add: effects_def)
  qed
qed

text \<open>Whatever the session answers, one call of the write path appends to the trace
  at most one commit or rollback that returned.\<close>

lemma execute_with_transaction_one_effect:
  "\<exists>new. snd (snd (execute_with_transaction db query c)) = snd c @ new
         \<and> length (effects new) \<le> 1"
proof -
  obtain res s1 where ex: "s_execute db query (fst c) = (res, s1)"
    by (cases "s_execute db query (fst c)")
  show ?thesis
  proof (cases res)
    case (Inl e)
    from rollback_handler_trace [of db e "(s1, snd c @ [Executed query False])"]
    obtain b where "snd (snd (rollback_handler db e (s1, snd c @ [Executed query False])))
                      = snd c @ [Executed query False, RolledBack b]"
      by auto
    with ex Inl have "snd (snd (execute_with_transaction db query c))
                        = snd c @ [Executed query False, RolledBack b]"
      by (simp add: execute_with_transaction_def session_execute_def)
    then show ?thesis
      by (intro exI [of _ "[Executed query False, RolledBack b]"]) (simp add: effects_def)
  next
    case (Inr r)
    obtain fres s2 where fe: "s_fetchall db r s1 = (fres, s2)"
      by (cases "s_fetchall db r s1")
    show ?thesis
    proof (cases fres)
      case (Inl e)
      let ?c2 = "(s2, snd c @ [Executed query True, Fetched False])"
      from write_branch_trace [of db r ?c2]
      obtain new where n: "snd (snd (write_branch db r ?c2)) = snd ?c2 @ new"
          "length (effects new) \<le> 1"
        by auto
      from ex \<open>res = Inr r\<close> fe Inl
      have "execute_with_transaction db query c = write_branch db r ?c2"
        by (simp add: execute_with_transaction_def session_execute_def result_fetchall_def)
      with n show ?thesis
        by (intro exI [of _ "[Executed query True, Fetched False] @ new"])
           (simp add: effects_def)
    next
      case (Inr rows)
      obtain cres s3 where cm: "s_commit db s2 = (cres, s3)"
        by (cases "s_commit db s2")
      show ?thesis
      proof (cases cres)
        case (Inl e)
        let ?c3 = "(s3, snd c @ [Executed query True, Fetched True, Committed False])"
        from write_branch_trace [of db r ?c3]
        obtain new where n: "snd (snd (write_branch db r ?c3)) = snd ?c3 @ new"
            "length (effects new) \<le> 1"
          by auto
        from ex \<open>res = Inr r\<close> fe \<open>fres = Inr rows\<close> cm Inl
        have "execute_with_transaction db query c = write_branch db r ?c3"
          by (simp add: execute_with_transaction_def session_execute_def
                result_fetchall_def session_commit_def)
        with n show ?thesis
          by (intro exI [of _ "[Executed query True, Fetched True, Committed False] @ new"])
             (simp add: effects_def)
      next
        case (Inr u)
        with ex \<open>res = Inr r\<close> fe \<open>fres = Inr rows\<close> cm
        have "snd (snd (execute_with_transaction db query c))
                = snd c @ [Executed query True, Fetched True, Committed True]"
          by (simp add: execute_with_transaction_def session_execute_def
                result_fetchall_def session_commit_def)
        then show ?thesis
          by (intro exI [of _ "[Executed query True, Fetched True, Committed True]"])
             (simp add: effects_def)
      qed
    qed
  qed
qed

text \<open>An exception of \<^verbatim>\<open>session.execute\<close> is answered by a rollback and, when the
  rollback returns, by the failure that carries the message.\<close>

lemma execute_exception_rolled_back:
  assumes "s_execute db query (fst c) = (Inl e, s1)" and "s_rollback db s1 = (Inr u, s2)"
  shows "execute_with_transaction db query c
           = (Inr (False, NoPayload, Some e),
              (s2, snd c @ [Executed query False, RolledBack True]))"
  using assms
  by (simp add: execute_with_transaction_def session_execute_def rollback_handler_def
        session_rollback_def)

section \<open>Properties of the preview path\<close>

lemma session_execute_commits:
  "commits (snd (snd (session_execute db query c))) = commits (snd c)"
  by (simp add: session_execute_def commits_def split: prod.splits)

lemma result_fetchall_commits:
  "commits (snd (snd (result_fetchall db r c))) = commits (snd c)"
  by (simp add: result_fetchall_def commits_def split: prod.splits)

lemma execute_preview_query_commits:
  "commits (snd (snd (execute_preview_query db query c))) = commits (snd c)"
proof -
  obtain res c1 where Pair: "session_execute db query c = (res, c1)"
    by (cases "session_execute db query c")
  have c1: "commits (snd c1) = commits (snd c)"
    using session_execute_commits [of db query c] Pair by simp
  show ?thesis
  proof (cases res)
    case (Inl e)
    with Pair c1 show ?thesis by (simp add: execute_preview_query_def)
  next
    case (Inr r)
    obtain res2 c2 where f: "result_fetchall db r c1 = (res2, c2)"
      by (cases "result_fetchall db r c1")
    have "commits (snd c2) = commits (snd c1)"
      using result_fetchall_commits [of db r c1] f by simp
    with Pair Inr f c1 show ?thesis
      by (cases res2) (simp_all add: execute_preview_query_def)
  qed
qed

lemma preview_query_commits:
  "commits (snd (snd (preview_query db query c))) = commits (snd c)"
proof (cases "validate_preview_query query")
  case (Pair ok error)
  show ?thesis
  proof (cases ok)
    case False
    with Pair show ?thesis by (simp add: preview_query_def)
  next
    case True
    define query_type where "query_type = snd (snd (validate_generated_query query))"
    define preview where "preview =
       (if query_type = Some ''UPDATE'' then convert_update_to_select query
        else if query_type = Some ''DELETE'' then convert_delete_to_select query
        else query)"
    obtain ok1 n err c1 where p: "execute_preview_query db preview c = ((ok1, n, err), c1)"
      by (cases "execute_preview_query db preview c") auto
    have c1: "commits (snd c1) = commits (snd c)"
      using execute_preview_query_commits [of db preview c] p by simp
    show ?thesis
    proof (cases ok1)
      case False
      with Pair True p c1 show ?thesis
        by (simp add: preview_query_def Let_def query_type_def [symmetric] preview_def [symmetric])
    next
      case ok: True
      obtain res2 c2 where e: "session_execute db preview c1 = (res2, c2)"
        by (cases "session_execute db preview c1")
      have c2: "commits (snd c2) = commits (snd c)"
        using session_execute_commits [of db preview c1] e c1 by simp
      show ?thesis
      proof (cases res2)
        case (Inl m)
        with Pair True p ok e c2 show ?thesis
          by (simp add: preview_query_def Let_def query_type_def [symmetric] preview_def [symmetric])
      next
        case (Inr r)
        obtain res3 c3 where f: "result_fetchall db r c2 = (res3, c3)"
          by (cases "result_fetchall db r c2")
        have c3: "commits (snd c3) = commits (snd c)"
          using result_fetchall_commits [of db r c2] f c2 by simp
        from Pair True p ok e Inr f c3 show ?thesis
          by (cases res3)
             (simp_all add: preview_query_def Let_def query_type_def [symmetric] preview_def [symmetric])
      qed
    qed
  qed
qed

text \<open>
  Claim C2.  The preview path never commits: whatever the text and whatever the session
  answers, \<open>preview_query\<close>, \<open>execute_preview_query\<close> and \<open>preview_with_limit\<close> add
  no commit call to the trace of the session, also when the previewed statement is an
  UPDATE or a DELETE.
\<close>

theorem preview_never_commits:
  "commits (snd (snd (preview_query db query c))) = commits (snd c)
   \<and> commits (snd (snd (execute_preview_query db query c))) = commits (snd c)
   \<and> commits (snd (snd (preview_with_limit db query limit c))) = commits (snd c)"
  by (simp add: preview_query_commits execute_preview_query_commits preview_with_limit_def)

section \<open>Properties of the diff service\<close>

lemma distinct_row_set: "distinct (row_set rows)"
  by (simp add: row_set_def)

lemma set_row_set: "set (row_set rows) = canonical_row ` set rows"
  by (simp add: row_set_def)

lemma set_set_minus: "set (set_minus xs ys) = set xs - set ys"
  by (auto simp: set_minus_def)

lemma distinct_set_minus: "distinct xs \<Longrightarrow> distinct (set_minus xs ys)"
  by (simp add: set_minus_def)

lemma length_set_inter: "distinct xs \<Longrightarrow> length (set_inter xs ys) = card (set xs \<inter> set ys)"
proof -
  assume d: "distinct xs"
  have "set (set_inter xs ys) = set xs \<inter> set ys"
    by (auto simp: set_inter_def)
  moreover have "distinct (set_inter xs ys)"
    using d by (simp add: set_inter_def)
  ultimately show ?thesis
    by (metis distinct_card)
qed

text \<open>The canonical form of a row: its items, sorted by column name.\<close>

lemma canonical_row_sorted: "sorted (map fst (canonical_row r))"
  by (simp add: canonical_row_def)

lemma canonical_row_length: "length (canonical_row r) = length r"
  by (simp add: canonical_row_def)

lemma canonical_row_set: "set (canonical_row r) = set r"
  by (simp add: canonical_row_def)

lemma canonical_row_keys: "distinct (map fst r) \<Longrightarrow> distinct (map fst (canonical_row r))"
  unfolding canonical_row_def
  by (induction r) (simp_all add: distinct_insort_key)

text \<open>Two dicts have the same canonical form exactly when they hold the same items.\<close>

lemma canonical_row_identity:
  assumes "distinct (map fst r)" and "distinct (map fst r')"
  shows "canonical_row r = canonical_row r' \<longleftrightarrow> set r = set r'"
proof
  assume "canonical_row r = canonical_row r'"
  then have "set (canonical_row r) = set (canonical_row r')" by simp
  then show "set r = set r'" by (simp add: canonical_row_set)
next
  assume eq: "set r = set r'"
  let ?a = "canonical_row r" and ?b = "canonical_row r'"
  have sets: "set ?a = set ?b"
    using eq by (simp add: canonical_row_set)
  then have "set (map fst ?a) = set (map fst ?b)" by simp
  moreover have "sorted (map fst ?a)" "sorted (map fst ?b)"
    by (rule canonical_row_sorted)+
  moreover have da: "distinct (map fst ?a)" and "distinct (map fst ?b)"
    using assms by (simp_all add: canonical_row_keys)
  ultimately have keys: "map fst ?a = map fst ?b"
    by (intro sorted_distinct_set_unique)
  have "inj_on fst (set ?a \<union> set ?b)"
    using da sets by (simp add: distinct_map)
  with keys show "?a = ?b"
    by (rule map_inj_on)
qed

lemma sample_of_difference:
  assumes it: "\<And>xs :: 'a list. distinct xs \<Longrightarrow> distinct (iteration xs) \<and> set (iteration xs) = set xs"
      and d: "distinct xs"
  shows "length (iteration (set_minus xs ys)) = card (set xs - set ys)"
    and "distinct (take 10 (iteration (set_minus xs ys)))"
    and "set (take 10 (iteration (set_minus xs ys))) \<subseteq> set xs - set ys"
proof -
  let ?m = "set_minus xs ys"
  from d have dm: "distinct ?m" by (rule distinct_set_minus)
  from it [OF dm] have i: "distinct (iteration ?m)" "set (iteration ?m) = set xs - set ys"
    by (simp_all add: set_set_minus)
  from i show "length (iteration ?m) = card (set xs - set ys)"
    by (metis distinct_card)
  from i(1) show "distinct (take 10 (iteration ?m))" by simp
  from i(2) set_take_subset [of 10 "iteration ?m"]
  show "set (take 10 (iteration ?m)) \<subseteq> set xs - set ys" by simp
qed

text \<open>
  Claim C9.  The row diff is symmetric over deduplicated structural row sets.  A row is
  identified by the list of its (column, value) pairs sorted by column: two rows have
  the same identity exactly when they hold the same pairs.  The number of rows added
  from A to B is the number of rows removed from B to A, each being the size of a
  difference of the two sets of identities; \<open>rows_unchanged\<close> is the size of their
  intersection; the two sample lists hold the first 10 of the added and of the removed
  rows, or all of them if they are fewer, without repetition, in whatever order the
  set is iterated.
\<close>

theorem row_diff_symmetric:
  assumes "\<And>xs :: 'v row list. distinct xs \<Longrightarrow> distinct (iteration xs) \<and> set (iteration xs) = set xs"
  shows "rows_added (calculate_row_diff iteration A B)
           = rows_removed (calculate_row_diff iteration B A)
   \<and> rows_added (calculate_row_diff iteration A B)
       = card (canonical_row ` set B - canonical_row ` set A)
   \<and> rows_removed (calculate_row_diff iteration A B)
       = card (canonical_row ` set A - canonical_row ` set B)
   \<and> rows_unchanged (calculate_row_diff iteration A B)
       = card (canonical_row ` set A \<inter> canonical_row ` set B)
   \<and> length (added_rows (calculate_row_diff iteration A B))
       = min 10 (rows_added (calculate_row_diff iteration A B))
   \<and> length (removed_rows (calculate_row_diff iteration A B))
       = min 10 (rows_removed (calculate_row_diff iteration A B))
   \<and> distinct (added_rows (calculate_row_diff iteration A B))
   \<and> distinct (removed_rows (calculate_row_diff iteration A B))
   \<and> set (added_rows (calculate_row_diff iteration A B))
       \<subseteq> canonical_row ` set B - canonical_row ` set A
   \<and> set (removed_rows (calculate_row_diff iteration A B))
       \<subseteq> canonical_row ` set A - canonical_row ` set B
   \<and> sorted (map fst (canonical_row r)) \<and> set (canonical_row r) = set r
   \<and> length (canonical_row r) = length r
   \<and> (distinct (map fst r) \<and> distinct (map fst r') \<longrightarrow>
         (canonical_row r = canonical_row r' \<longleftrightarrow> set r = set r'))"
proof -
  have s1: "length (iteration (set_minus (row_set X) (row_set Y)))
              = card (canonical_row ` set X - canonical_row ` set Y)" for X Y
    using sample_of_difference(1) [of iteration "row_set X" "row_set Y", OF assms distinct_row_set]
    by (simp add: set_row_set)
  have s2: "distinct (take 10 (iteration (set_minus (row_set X) (row_set Y))))" for X Y
    using sample_of_difference(2) [of iteration "row_set X" "row_set Y", OF assms distinct_row_set]
    by simp
  have s3: "set (take 10 (iteration (set_minus (row_set X) (row_set Y))))
              \<subseteq> canonical_row ` set X - canonical_row ` set Y" for X Y
    using sample_of_difference(3) [of iteration "row_set X" "row_set Y", OF assms distinct_row_set]
    by (simp add: set_row_set)
  have added: "rows_added (calculate_row_diff iteration X Y)
                 = card (canonical_row ` set Y - canonical_row ` set X)" for X Y
    using s1 [of Y X] by (simp add: calculate_row_diff_def Let_def)
  have removed: "rows_removed (calculate_row_diff iteration X Y)
                 = card (canonical_row ` set X - canonical_row ` set Y)" for X Y
    using s1 [of X Y] by (simp add: calculate_row_diff_def Let_def)
  have unchanged: "rows_unchanged (calculate_row_diff iteration A B)
                 = card (canonical_row ` set A \<inter> canonical_row ` set B)"
    by (simp add: calculate_row_diff_def Let_def length_set_inter distinct_row_set set_row_set)
  have la: "length (added_rows (calculate_row_diff iteration A B))
              = min 10 (rows_added (calculate_row_diff iteration A B))"
    by (simp add: calculate_row_diff_def Let_def min.commute)
  have lr: "length (removed_rows (calculate_row_diff iteration A B))
              = min 10 (rows_removed (calculate_row_diff iteration A B))"
    by (simp add: calculate_row_diff_def Let_def min.commute)
  have da: "distinct (added_rows (calculate_row_diff iteration A B))"
    using s2 [of B A] by (simp add: calculate_row_diff_def Let_def)
  have dr: "distinct (removed_rows (calculate_row_diff iteration A B))"
    using s2 [of A B] by (simp add: calculate_row_diff_def Let_def)
  have sa: "set (added_rows (calculate_row_diff iteration A B))
              \<subseteq> canonical_row ` set B - canonical_row ` set A"
    using s3 [of B A] by (simp add: calculate_row_diff_def Let_def)
  have sr: "set (removed_rows (calculate_row_diff iteration A B))
              \<subseteq> canonical_row ` set A - canonical_row ` set B"
    using s3 [of A B] by (simp add: calculate_row_diff_def Let_def)
  have ident: "distinct (map fst r) \<and> distinct (map fst r') \<longrightarrow>
         (canonical_row r = canonical_row r' \<longleftrightarrow> set r = set r')"
    using canonical_row_identity [of r r'] by blast
  from added [of A B] removed [of B A] removed [of A B] unchanged la lr da dr sa sr
       canonical_row_sorted [of r] canonical_row_set [of r] canonical_row_length [of r] ident
  show ?thesis by simp
qed

theorem row_diff_symmetric_witness:
  "rows_added (calculate_row_diff rev
       [[(''id'', 1::int), (''n'', 2)], [(''n'', 5), (''id'', 3)]]
       [[(''n'', 2), (''id'', 1)], [(''id'', 4), (''n'', 6)]])
     = rows_removed (calculate_row_diff rev
       [[(''n'', 2), (''id'', 1)], [(''id'', 4), (''n'', 6)]]
       [[(''id'', 1::int), (''n'', 2)], [(''n'', 5), (''id'', 3)]])
   \<and> canonical_row [(''id'', 1::int), (''n'', 2)] = canonical_row [(''n'', 2), (''id'', 1)]"
proof -
  have it: "distinct xs \<Longrightarrow> distinct (rev xs) \<and> set (rev xs) = set xs" for xs :: "int row list"
    by simp
  have k: "distinct (map fst [(''id'', 1::int), (''n'', 2)])
           \<and> distinct (map fst [(''n'', 2::int), (''id'', 1)])"
    by simp
  have e: "set [(''id'', 1::int), (''n'', 2)] = set [(''n'', 2), (''id'', 1)]"
    by auto
  from row_diff_symmetric [where iteration = rev
      and A = "[[(''id'', 1::int), (''n'', 2)], [(''n'', 5), (''id'', 3)]]"
      and B = "[[(''n'', 2), (''id'', 1)], [(''id'', 4), (''n'', 6)]]"
      and r = "[(''id'', 1::int), (''n'', 2)]" and r' = "[(''n'', 2), (''id'', 1)]", OF it] k e
  show ?thesis by blast
qed

text \<open>
  Claim C10.  When the before list or the after list is empty, the column-level diff
  is the empty mapping: no column is reported as changed, whatever the other list holds.
\<close>

theorem compare_column_changes_empty:
  "before_rows = [] \<or> after_rows = [] \<Longrightarrow>
     compare_column_changes before_rows after_rows = Map.empty"
  by (simp add: compare_column_changes_def)

theorem compare_column_changes_empty_witness:
  "compare_column_changes [] [[(''id'', 1::int), (''name'', 2)]] = Map.empty
   \<and> compare_column_changes [[(''id'', 1::int)]] [] = Map.empty"
  using compare_column_changes_empty [of "[]" "[[(''id'', 1::int), (''name'', 2)]]"]
        compare_column_changes_empty [of "[[(''id'', 1::int)]]" "[]"]
  by simp

end
